theory Spec2Isabelle
  imports Complex_Main "HOL-Library.Sublist"
begin

section \<open>Strings and character classes\<close>

text \<open>
  The program is TypeScript. A JavaScript string is a sequence of UTF-16 code units; it is
  modelled as a \<^typ>\<open>string\<close> whose characters are the code units U+0000 to U+00FF, so
  \<^const>\<open>length\<close> is \<^verbatim>\<open>.length\<close>, \<^const>\<open>take\<close> and \<^const>\<open>drop\<close> are
  \<^verbatim>\<open>substring\<close>. In that range the white space of \<^verbatim>\<open>\s\<close> and of
  \<^verbatim>\<open>String.prototype.trim\<close> is TAB, LF, VT, FF, CR, SPACE and NBSP, \<^verbatim>\<open>\w\<close> is
  \<^verbatim>\<open>[A-Za-z0-9_]\<close>, and under the \<^verbatim>\<open>i\<close> flag an ASCII letter of a pattern matches
  exactly its two cases.
\<close>

definition is_space :: "char \<Rightarrow> bool" where
  "is_space c \<longleftrightarrow>
     c \<in> set [CHR 0x09, CHR 0x0A, CHR 0x0B, CHR 0x0C, CHR 0x0D, CHR 0x20, CHR 0xA0]"

definition is_digit :: "char \<Rightarrow> bool" where
  "is_digit c \<longleftrightarrow> c \<in> set ''0123456789''"

definition lower_chars :: string where
  "lower_chars = ''abcdefghijklmnopqrstuvwxyz''"

definition upper_chars :: string where
  "upper_chars = ''ABCDEFGHIJKLMNOPQRSTUVWXYZ''"

definition is_word :: "char \<Rightarrow> bool" where
  "is_word c \<longleftrightarrow> c \<in> set lower_chars \<or> c \<in> set upper_chars \<or> is_digit c \<or> c = CHR ''_''"

definition upper :: "char \<Rightarrow> char" where
  "upper c = (case map_of (zip lower_chars upper_chars) c of Some u \<Rightarrow> u | None \<Rightarrow> c)"

definition any_char :: "char \<Rightarrow> bool" where
  "any_char c \<longleftrightarrow> True"

text \<open>\<^verbatim>\<open>s.trim()\<close>: white space removed at both ends.\<close>

definition trim :: "string \<Rightarrow> string" where
  "trim s = rev (dropWhile is_space (rev (dropWhile is_space s)))"

text \<open>\<^verbatim>\<open>s.includes(t)\<close>, \<^verbatim>\<open>s.endsWith(t)\<close>.\<close>

fun starts_with :: "string \<Rightarrow> string \<Rightarrow> bool" where
  "starts_with s [] = True"
| "starts_with [] (c # t) = False"
| "starts_with (d # s) (c # t) = (d = c \<and> starts_with s t)"

fun str_includes :: "string \<Rightarrow> string \<Rightarrow> bool" where
  "str_includes [] t = (t = [])"
| "str_includes (c # s) t = (starts_with (c # s) t \<or> str_includes s t)"

definition endsWith :: "string \<Rightarrow> string \<Rightarrow> bool" where
  "endsWith s t = starts_with (rev s) (rev t)"

text \<open>The decimal form of an integer, as a template literal prints an integral number.\<close>

definition digit_char :: "nat \<Rightarrow> char" where
  "digit_char d = ''0123456789'' ! d"

function show_nat :: "nat \<Rightarrow> string" where
  "show_nat n = (if n < 10 then [digit_char n] else show_nat (n div 10) @ [digit_char (n mod 10)])"
  by pat_completeness auto
termination
  by (relation "measure (\<lambda>n. n)") auto

declare show_nat.simps [simp del]

definition show_int :: "int \<Rightarrow> string" where
  "show_int i = (if i < 0 then CHR ''-'' # show_nat (nat (- i)) else show_nat (nat i))"

section \<open>Regular expressions as the engine of the language runs them\<close>

text \<open>
  The source decides most of its questions with regular expressions. They are embedded
  as data and run by a backtracking matcher that returns, for a start state, the states
  at which the expression can end, in the order in which backtracking tries them: the
  head of the list is the match the language reports. A state holds the character before
  the current position (for \<^verbatim>\<open>^\<close> and \<^verbatim>\<open>\b\<close>), the input that is left, and the text of
  capture group 1 (no expression of the source has a second group).
\<close>

datatype mstate = MState (prev: "char option") (rest: string) (cap: "string option")

datatype re =
    Cls "char \<Rightarrow> bool"
  | Eps
  | RSeq re re
  | RAlt re re
  | RStar re
  | RLazy re
  | Bol
  | Eol
  | WordB
  | Grp re

text \<open>
  A greedy \<^verbatim>\<open>*\<close> tries one more iteration before it stops, a lazy \<^verbatim>\<open>*?\<close> stops before
  it tries one more; an iteration that consumes nothing is refused, as the language
  specifies.
\<close>

function star :: "(mstate \<Rightarrow> mstate list) \<Rightarrow> mstate \<Rightarrow> mstate list" where
  "star f x =
     concat (map (star f) (filter (\<lambda>y. length (rest y) < length (rest x)) (f x))) @ [x]"
  by pat_completeness auto
termination
  by (relation "measure (\<lambda>(f, x). length (rest x))") auto

declare star.simps [simp del]

function lazy :: "(mstate \<Rightarrow> mstate list) \<Rightarrow> mstate \<Rightarrow> mstate list" where
  "lazy f x =
     x # concat (map (lazy f) (filter (\<lambda>y. length (rest y) < length (rest x)) (f x)))"
  by pat_completeness auto
termination
  by (relation "measure (\<lambda>(f, x). length (rest x))") auto

declare lazy.simps [simp del]

definition word_at :: "char option \<Rightarrow> bool" where
  "word_at c = (case c of None \<Rightarrow> False | Some d \<Rightarrow> is_word d)"

definition next_char :: "string \<Rightarrow> char option" where
  "next_char s = (case s of [] \<Rightarrow> None | c # _ \<Rightarrow> Some c)"

primrec ends :: "re \<Rightarrow> mstate \<Rightarrow> mstate list" where
  "ends (Cls p) x =
     (case rest x of [] \<Rightarrow> [] | c # cs \<Rightarrow> if p c then [MState (Some c) cs (cap x)] else [])"
| "ends Eps x = [x]"
| "ends (RSeq a b) x = concat (map (ends b) (ends a x))"
| "ends (RAlt a b) x = ends a x @ ends b x"
| "ends (RStar a) x = star (ends a) x"
| "ends (RLazy a) x = lazy (ends a) x"
| "ends Bol x = (if prev x = None then [x] else [])"
| "ends Eol x = (if rest x = [] then [x] else [])"
| "ends WordB x = (if word_at (prev x) \<noteq> word_at (next_char (rest x)) then [x] else [])"
| "ends (Grp a) x =
     map (\<lambda>y. MState (prev y) (rest y)
                 (Some (take (length (rest x) - length (rest y)) (rest x))))
       (ends a x)"

text \<open>Derived forms: \<^verbatim>\<open>a+\<close>, \<^verbatim>\<open>a?\<close>, a literal, a literal under the \<^verbatim>\<open>i\<close> flag.\<close>

definition RPlus :: "re \<Rightarrow> re" where
  "RPlus a = RSeq a (RStar a)"

definition ROpt :: "re \<Rightarrow> re" where
  "ROpt a = RAlt a Eps"

definition chr :: "char \<Rightarrow> re" where
  "chr c = Cls (\<lambda>d. d = c)"

definition ichr :: "char \<Rightarrow> re" where
  "ichr c = Cls (\<lambda>d. upper d = upper c)"

definition str :: "string \<Rightarrow> re" where
  "str s = foldr (\<lambda>c r. RSeq (chr c) r) s Eps"

definition istr :: "string \<Rightarrow> re" where
  "istr s = foldr (\<lambda>c r. RSeq (ichr c) r) s Eps"

text \<open>
  A match is looked for at every start position from the left; the first position with
  a match wins, and there the first end state.
\<close>

fun search_from :: "re \<Rightarrow> char option \<Rightarrow> string \<Rightarrow> nat \<Rightarrow> (nat \<times> mstate) option" where
  "search_from r p [] i =
     (case ends r (MState p [] None) of [] \<Rightarrow> None | y # _ \<Rightarrow> Some (i, y))"
| "search_from r p (c # cs) i =
     (case ends r (MState p (c # cs) None) of
        [] \<Rightarrow> search_from r (Some c) cs (Suc i)
      | y # _ \<Rightarrow> Some (i, y))"

definition re_exec :: "re \<Rightarrow> string \<Rightarrow> (nat \<times> mstate) option" where
  "re_exec r s = search_from r None s 0"

text \<open>\<^verbatim>\<open>re.test(s)\<close>, \<^verbatim>\<open>s.search(re)\<close>, \<^verbatim>\<open>s.replace(re, "")\<close> without the \<^verbatim>\<open>g\<close> flag.\<close>

definition re_test :: "re \<Rightarrow> string \<Rightarrow> bool" where
  "re_test r s \<longleftrightarrow> re_exec r s \<noteq> None"

definition re_search :: "re \<Rightarrow> string \<Rightarrow> int" where
  "re_search r s = (case re_exec r s of None \<Rightarrow> - 1 | Some (i, y) \<Rightarrow> int i)"

definition re_remove :: "re \<Rightarrow> string \<Rightarrow> string" where
  "re_remove r s = (case re_exec r s of None \<Rightarrow> s | Some (i, y) \<Rightarrow> take i s @ rest y)"

section \<open>The sanitizer of \<^verbatim>\<open>executeSqlite\<close>\<close>

definition NL :: char where
  "NL = CHR 0x0A"

definition fence :: string where
  "fence = [CHR 0x60, CHR 0x60, CHR 0x60]"

text \<open>\<^verbatim>\<open>/;+\s*$/\<close>\<close>

definition re_semicolons :: re where
  "re_semicolons = RSeq (RPlus (chr CHR '';'')) (RSeq (RStar (Cls is_space)) Eol)"

text \<open>\<^verbatim>\<open>/^```[\w]*\n?/i\<close> and \<^verbatim>\<open>/\n?```$/i\<close>\<close>

definition re_fence_open :: re where
  "re_fence_open = RSeq Bol (RSeq (str fence) (RSeq (RStar (Cls is_word)) (ROpt (chr NL))))"

definition re_fence_close :: re where
  "re_fence_close = RSeq (ROpt (chr NL)) (RSeq (str fence) Eol)"

text \<open>\<^verbatim>\<open>/(?:--[\s\S]*?\n|\/\*[\s\S]*?\*\/|\s)*SELECT/i\<close>\<close>

definition re_select_lead :: re where
  "re_select_lead =
     RSeq (RStar (RAlt (RSeq (str ''--'') (RSeq (RLazy (Cls any_char)) (chr NL)))
                 (RAlt (RSeq (str ''/*'') (RSeq (RLazy (Cls any_char)) (str ''*/'')))
                       (Cls is_space))))
          (istr ''SELECT'')"

text \<open>\<^verbatim>\<open>/SELECT/i\<close>\<close>

definition re_select :: re where
  "re_select = istr ''SELECT''"

text \<open>\<^verbatim>\<open>/\bWHERE\s+/i\<close>\<close>

definition re_where_start :: re where
  "re_where_start = RSeq WordB (RSeq (istr ''WHERE'') (RPlus (Cls is_space)))"

text \<open>\<^verbatim>\<open>/\bWHERE\s+([\s\S]*?)(?:\bGROUP\s+BY|\bORDER\s+BY|\bLIMIT|$)/i\<close>\<close>

definition re_where_end :: re where
  "re_where_end =
     RAlt (RSeq WordB (RSeq (istr ''GROUP'') (RSeq (RPlus (Cls is_space)) (istr ''BY''))))
    (RAlt (RSeq WordB (RSeq (istr ''ORDER'') (RSeq (RPlus (Cls is_space)) (istr ''BY''))))
    (RAlt (RSeq WordB (istr ''LIMIT''))
          Eol))"

definition re_where :: re where
  "re_where =
     RSeq WordB (RSeq (istr ''WHERE'') (RSeq (RPlus (Cls is_space))
       (RSeq (Grp (RLazy (Cls any_char))) re_where_end)))"

text \<open>\<^verbatim>\<open>/^\[?[\w]+\]?\s*(AND|OR)?\s*$/i\<close>\<close>

definition incompletePattern :: re where
  "incompletePattern =
     RSeq Bol (RSeq (ROpt (chr CHR ''['')) (RSeq (RPlus (Cls is_word))
       (RSeq (ROpt (chr CHR '']'')) (RSeq (RStar (Cls is_space))
         (RSeq (ROpt (Grp (RAlt (istr ''AND'') (istr ''OR''))))
           (RSeq (RStar (Cls is_space)) Eol))))))"

text \<open>\<^verbatim>\<open>/\blimit\s+\d+/i\<close>\<close>

definition re_limit :: re where
  "re_limit = RSeq WordB (RSeq (istr ''limit'') (RSeq (RPlus (Cls is_space)) (RPlus (Cls is_digit))))"

text \<open>
  The cleaning of lines 90 to 96: trim, remove a trailing run of semicolons, remove an
  opening and a closing code fence, in that order.
\<close>

definition clean :: "string \<Rightarrow> string" where
  "clean sql = re_remove re_fence_close (re_remove re_fence_open (re_remove re_semicolons (trim sql)))"

text \<open>Lines 116 to 119: the text from the first \<^verbatim>\<open>SELECT\<close> on.\<close>

definition from_select :: "string \<Rightarrow> string" where
  "from_select cleaned =
     (let selectIndex = re_search re_select cleaned
      in if 0 < selectIndex then drop (nat selectIndex) cleaned else cleaned)"

text \<open>
  A step of the function before the engine is called: it returns a rejection, raises
  (into the \<^verbatim>\<open>catch\<close> of the function) or goes on with a statement.
\<close>

datatype step = Reject string | Raise string | Forward string

definition msg_too_short :: string where
  "msg_too_short = ''SQL query appears to be empty or too short.''"

definition msg_only_select :: "string \<Rightarrow> string" where
  "msg_only_select cleaned =
     ''Only SELECT queries are allowed for security reasons. Query must start with SELECT. Got: ''
       @ take 50 cleaned @ ''...''"

definition msg_incomplete :: "string \<Rightarrow> string" where
  "msg_incomplete whereClause =
     ''SQL query appears incomplete. The WHERE clause is missing a condition. Found: WHERE ''
       @ whereClause"

text \<open>
  Lines 122 to 137. \<^verbatim>\<open>whereMatch[1]\<close> is the text of group 1; were the group undefined,
  \<^verbatim>\<open>.trim()\<close> would raise a TypeError.
\<close>

definition whereMatch :: "string \<Rightarrow> string option option" where
  "whereMatch cleaned =
     (if re_test re_where_start cleaned
      then (case re_exec re_where cleaned of None \<Rightarrow> None | Some (i, y) \<Rightarrow> Some (cap y))
      else None)"

definition check_where :: "string \<Rightarrow> step option" where
  "check_where cleaned =
     (case whereMatch cleaned of
        None \<Rightarrow> None
      | Some None \<Rightarrow> Some (Raise ''Cannot read properties of undefined (reading 'trim')'')
      | Some (Some g) \<Rightarrow>
          (let whereClause = trim g
           in if re_test incompletePattern whereClause
              then Some (Reject (msg_incomplete whereClause))
              else None))"

text \<open>Lines 140 to 146; \<^verbatim>\<open>limit\<close> is an integral number.\<close>

definition hasLimit :: "string \<Rightarrow> bool" where
  "hasLimit cleaned = re_test re_limit cleaned"

definition limited :: "string \<Rightarrow> int \<Rightarrow> string" where
  "limited cleaned limit =
     (if hasLimit cleaned then cleaned
      else cleaned @ '' LIMIT '' @ show_int (max 1 (min 1000 limit)))"

definition sanitize :: "string \<Rightarrow> int \<Rightarrow> step" where
  "sanitize sql limit =
     (let cleaned = clean sql in
      if re_exec re_select_lead cleaned = None then
        (if length cleaned < 10 then Reject msg_too_short
         else Reject (msg_only_select cleaned))
      else
        (let cleaned = from_select cleaned in
         case check_where cleaned of
           Some st \<Rightarrow> st
         | None \<Rightarrow> Forward (limited cleaned limit)))"

section \<open>Values and numbers of the language\<close>

text \<open>
  A number is an IEEE 754 double: not a number, an infinity, the negative zero, or a
  finite value, kept as the rational it denotes (\<open>Fin 0\<close> is the positive zero).
\<close>

datatype jsnum = NaN | PosInf | NegInf | NegZero | Fin rat

datatype jsval = JUndefined | JNull | JBool bool | JNum jsnum | JStr string

definition isNaN :: "jsnum \<Rightarrow> bool" where
  "isNaN n \<longleftrightarrow> n = NaN"

definition isFinite :: "jsnum \<Rightarrow> bool" where
  "isFinite n \<longleftrightarrow> n \<noteq> NaN \<and> n \<noteq> PosInf \<and> n \<noteq> NegInf"

text \<open>
  Rounding a non-negative rational to the nearest double, ties to the even significand:
  53 significant bits, the least exponent that of the subnormal numbers, and a result of
  \<open>2 ^ 1024\<close> or more is the infinity.
\<close>

definition pow2 :: "int \<Rightarrow> rat" where
  "pow2 e = (if 0 \<le> e then of_int (2 ^ nat e) else 1 / of_int (2 ^ nat (- e)))"

function bit_length :: "int \<Rightarrow> int" where
  "bit_length n = (if n \<le> 0 then 0 else 1 + bit_length (n div 2))"
  by pat_completeness auto
termination
  by (relation "measure (\<lambda>n. nat n)") auto

declare bit_length.simps [simp del]

definition binade :: "rat \<Rightarrow> int" where
  "binade q =
     (let (a, b) = quotient_of q;
          e = bit_length a - bit_length b
      in if q < pow2 e then e - 1 else e)"

definition round_half_even :: "rat \<Rightarrow> int" where
  "round_half_even q =
     (let f = \<lfloor>q\<rfloor>; d = q - of_int f
      in if d < 1 / 2 then f else if 1 / 2 < d then f + 1 else if even f then f else f + 1)"

definition to_double :: "rat \<Rightarrow> jsnum" where
  "to_double q =
     (if q = 0 then Fin 0
      else (let e = max (binade q) (- 1022);
                u = pow2 (e - 52);
                r = of_int (round_half_even (q / u)) * u
            in if pow2 1024 \<le> r then PosInf else Fin r))"

definition negate :: "jsnum \<Rightarrow> jsnum" where
  "negate n =
     (case n of
        NaN \<Rightarrow> NaN
      | PosInf \<Rightarrow> NegInf
      | NegInf \<Rightarrow> PosInf
      | NegZero \<Rightarrow> Fin 0
      | Fin r \<Rightarrow> if r = 0 then NegZero else Fin (- r))"

text \<open>
  \<^verbatim>\<open>Number(s)\<close> of a string: the grammar \<^verbatim>\<open>StringNumericLiteral\<close> of the language.
  White space around the literal is dropped and nothing but white space is zero; the
  literal is \<^verbatim>\<open>0x\<close>, \<^verbatim>\<open>0o\<close> or \<^verbatim>\<open>0b\<close> with digits of that base, or an optional sign
  before \<^verbatim>\<open>Infinity\<close> or a decimal literal with an optional exponent; any other text is
  not a number.
\<close>

definition digit_of :: "char \<Rightarrow> int" where
  "digit_of c =
     (case map_of (zip ''0123456789abcdefABCDEF''
                       [0, 1, 2, 3, 4, 5, 6, 7, 8, 9, 10, 11, 12, 13, 14, 15, 10, 11, 12, 13, 14, 15]) c of
        Some d \<Rightarrow> d
      | None \<Rightarrow> 0)"

definition digits_value :: "int \<Rightarrow> string \<Rightarrow> int" where
  "digits_value base ds = foldl (\<lambda>a c. a * base + digit_of c) 0 ds"

definition is_digit_of :: "int \<Rightarrow> char \<Rightarrow> bool" where
  "is_digit_of base c \<longleftrightarrow>
     (if base = 16 then c \<in> set ''0123456789abcdefABCDEF''
      else if base = 8 then c \<in> set ''01234567''
      else c \<in> set ''01'')"

definition nondecimal_literal :: "string \<Rightarrow> int option" where
  "nondecimal_literal t =
     (case t of
        z # x # ds \<Rightarrow>
          (let base = (if x \<in> set ''xX'' then 16 else if x \<in> set ''oO'' then 8
                       else if x \<in> set ''bB'' then 2 else (0::int))
           in if z = CHR ''0'' \<and> base \<noteq> 0 \<and> ds \<noteq> [] \<and> list_all (is_digit_of base) ds
              then Some (digits_value base ds) else None)
      | _ \<Rightarrow> None)"

text \<open>An exponent part: \<^verbatim>\<open>e\<close> or \<^verbatim>\<open>E\<close>, an optional sign, one digit or more.\<close>

definition exponent_part :: "string \<Rightarrow> int option" where
  "exponent_part t =
     (case t of
        [] \<Rightarrow> Some 0
      | e # u \<Rightarrow>
          if e \<in> set ''eE'' then
            (let (neg, ds) = (case u of
                                [] \<Rightarrow> (False, [])
                              | c # v \<Rightarrow> if c = CHR ''-'' then (True, v)
                                         else if c = CHR ''+'' then (False, v) else (False, u))
             in if ds \<noteq> [] \<and> list_all is_digit ds
                then Some (if neg then - digits_value 10 ds else digits_value 10 ds)
                else None)
          else None)"

text \<open>
  An unsigned decimal literal: digits, an optional point with digits (a digit at least
  on one side of the point), an optional exponent. The value is exact.
\<close>

definition unsigned_decimal :: "string \<Rightarrow> rat option" where
  "unsigned_decimal t =
     (let ip = takeWhile is_digit t; t1 = dropWhile is_digit t;
          (fp, t2) = (case t1 of
                        [] \<Rightarrow> ([], [])
                      | c # v \<Rightarrow> if c = CHR ''.''
                                 then (takeWhile is_digit v, dropWhile is_digit v)
                                 else ([], t1))
      in if ip = [] \<and> fp = [] then None
         else (case exponent_part t2 of
                 None \<Rightarrow> None
               | Some ex \<Rightarrow>
                   (let m = of_int (digits_value 10 (ip @ fp)); k = ex - int (length fp)
                    in Some (if 0 \<le> k then m * 10 ^ nat k else m / 10 ^ nat (- k)))))"

definition unsigned_literal :: "string \<Rightarrow> jsnum option" where
  "unsigned_literal t =
     (if t = ''Infinity'' then Some PosInf else map_option to_double (unsigned_decimal t))"

text \<open>The literal itself; the empty text is none.\<close>

definition StrNumericLiteral :: "string \<Rightarrow> jsnum option" where
  "StrNumericLiteral t =
     (case nondecimal_literal t of
        Some n \<Rightarrow> Some (to_double (of_int n))
      | None \<Rightarrow>
          (case t of
             c # u \<Rightarrow>
               if c = CHR ''-'' then map_option negate (unsigned_literal u)
               else if c = CHR ''+'' then unsigned_literal u
               else unsigned_literal t
           | [] \<Rightarrow> None))"

definition Number :: "string \<Rightarrow> jsnum" where
  "Number s =
     (let t = trim s in
      if t = [] then Fin 0
      else (case StrNumericLiteral t of None \<Rightarrow> NaN | Some n \<Rightarrow> n))"

section \<open>The executor: \<^verbatim>\<open>executeSqlite\<close> and \<^verbatim>\<open>listCsvFiles\<close>\<close>

text \<open>
  A row is an object, kept as the list of its keys and values in the order of
  \<^verbatim>\<open>Object.keys\<close>. The embedded engine is a library and not part of the source: a call of
  \<^verbatim>\<open>DB.exec\<close> on a statement raises an error (with its message, if it has one), returns
  something that is not an array, or returns rows. The data directory is absent, or its
  path exists: then reading it raises an error (the path is a file, or may not be read),
  or gives the names of its entries.
\<close>

type_synonym row = "(string \<times> jsval) list"

datatype engine_outcome = Throws "string option" | NotRows | Rows "row list"

datatype dir_listing = Unlistable string | Entries "string list"

record world =
  data_dir :: "dir_listing option"
  DB_exec :: "string \<Rightarrow> engine_outcome"

text \<open>
  What a call of the function gives: the failure object, the success object, or no
  object at all: the call raises (the function is \<^verbatim>\<open>async\<close>, so its promise is rejected)
  with the error that is carried.
\<close>

datatype query_result = Failure string | Success "row list" "string list" | Raised string

definition executed :: "query_result \<Rightarrow> bool" where
  "executed r = (case r of Failure e \<Rightarrow> False | Success rs fs \<Rightarrow> True | Raised e \<Rightarrow> False)"

definition DQ :: char where
  "DQ = CHR 0x22"

definition join :: "string \<Rightarrow> string list \<Rightarrow> string" where
  "join sep xs = (case xs of [] \<Rightarrow> [] | x # ys \<Rightarrow> foldl (\<lambda>a y. a @ sep @ y) x ys)"

text \<open>\<^verbatim>\<open>path.basename(f, ext)\<close> of a directory entry, a name without separators.\<close>

definition basename :: "string \<Rightarrow> string \<Rightarrow> string" where
  "basename f ext =
     (if ext \<noteq> [] \<and> endsWith f ext then take (length f - length ext) f else f)"

text \<open>
  Lines 211 to 217. \<^verbatim>\<open>fs.readdirSync\<close> raises when the path cannot be listed, and so does
  the function: \<open>Inl\<close> is the error, \<open>Inr\<close> the list that is returned.
\<close>

definition listCsvFiles :: "world \<Rightarrow> string + (string \<times> string) list" where
  "listCsvFiles w =
     (case data_dir w of
        None \<Rightarrow> Inr []
      | Some (Unlistable e) \<Rightarrow> Inl e
      | Some (Entries entries) \<Rightarrow>
          Inr (map (\<lambda>f. (basename f ''.csv'', f)) (filter (\<lambda>f. endsWith f ''.csv'') entries)))"

text \<open>Lines 162 to 181: the conversion of one cell and of one row.\<close>

definition coerce :: "jsval \<Rightarrow> jsval" where
  "coerce v =
     (case v of
        JStr s \<Rightarrow>
          if s \<noteq> [] \<and> \<not> isNaN (Number s) \<and> trim s \<noteq> [] then
            (let num = Number s
             in if \<not> isNaN num \<and> isFinite num then JNum num else v)
          else v
      | _ \<Rightarrow> v)"

definition processRow :: "row \<Rightarrow> row" where
  "processRow r = map (\<lambda>(key, v). (key, coerce v)) r"

text \<open>
  Lines 184 to 207: the \<^verbatim>\<open>catch\<close> of the function, from the message of the error. It
  gives the error of the failure result (\<open>Inr\<close>), or it raises itself (\<open>Inl\<close>): the call of
  \<^verbatim>\<open>listCsvFiles\<close> stands in the \<^verbatim>\<open>catch\<close> block, where nothing catches what it raises.
\<close>

text \<open>\<^verbatim>\<open>/['"`]?(\w+)['"`]?/\<close>\<close>

definition re_column :: re where
  "re_column =
     RSeq (ROpt (Cls (\<lambda>c. c \<in> set [CHR 0x27, CHR 0x22, CHR 0x60])))
       (RSeq (Grp (RPlus (Cls is_word)))
         (ROpt (Cls (\<lambda>c. c \<in> set [CHR 0x27, CHR 0x22, CHR 0x60]))))"

definition msg_no_dir :: string where
  "msg_no_dir = ''Local data directory not found. Add CSV files into /data and restart.''"

definition msg_table :: "world \<Rightarrow> string + string" where
  "msg_table w =
     (case listCsvFiles w of
        Inl e \<Rightarrow> Inl e
      | Inr files \<Rightarrow> Inr (''Table not found. Available tables: '' @ join '', '' (map fst files)))"

definition msg_column :: "string \<Rightarrow> string" where
  "msg_column columnName =
     ''Column '' @ [DQ] @ columnName @ [DQ] @ '' not found. Common issues:'' @ [NL] @
     ''- '' @ [DQ] @ ''order_value'' @ [DQ] @
     '' doesn't exist - use payments.[payment_value] or SUM([order_items].[price] + [order_items].[freight_value])''
       @ [NL] @
     ''- Check that column names use square brackets: [column_name]'' @ [NL] @
     ''- Verify the table schema matches your query''"

definition msg_syntax :: "string \<Rightarrow> string" where
  "msg_syntax errorMessage =
     ''SQL syntax error: '' @ errorMessage @ [NL] @
     ''Make sure to use SQLite-compatible syntax and square brackets for identifiers.''"

definition msg_undefined :: "string \<Rightarrow> string" where
  "msg_undefined errorMessage =
     ''Query error: '' @ errorMessage @ [NL] @
     ''This often means a column or table doesn't exist. Check your table and column names.''"

definition catch_error :: "world \<Rightarrow> string option \<Rightarrow> string + string" where
  "catch_error w message =
     (let errorMessage = (case message of
                            None \<Rightarrow> ''Unknown error''
                          | Some m \<Rightarrow> if m = [] then ''Unknown error'' else m)
      in if str_includes errorMessage ''no such table'' \<or> str_includes errorMessage ''Table''
         then msg_table w
         else if str_includes errorMessage ''no such column'' \<or> str_includes errorMessage ''Column''
                 \<or> str_includes errorMessage ''Cannot read properties of undefined''
         then (let columnName = (case re_exec re_column errorMessage of
                                   None \<Rightarrow> ''unknown''
                                 | Some (i, y) \<Rightarrow> (case cap y of None \<Rightarrow> ''undefined'' | Some g \<Rightarrow> g))
               in Inr (msg_column columnName))
         else if str_includes errorMessage ''syntax error'' \<or> str_includes errorMessage ''Syntax''
         then Inr (msg_syntax errorMessage)
         else if str_includes errorMessage ''undefined''
         then Inr (msg_undefined errorMessage)
         else Inr errorMessage)"

definition caught :: "world \<Rightarrow> string option \<Rightarrow> query_result" where
  "caught w message = (case catch_error w message of Inl e \<Rightarrow> Raised e | Inr msg \<Rightarrow> Failure msg)"

text \<open>
  The function. Its second component is the list of the statements that were passed to
  the engine; \<^verbatim>\<open>limit\<close> is 200 when the caller gives none.
\<close>

definition executeSqlite :: "world \<Rightarrow> string \<Rightarrow> int option \<Rightarrow> query_result \<times> string list" where
  "executeSqlite w sql limit_arg =
     (let limit = (case limit_arg of None \<Rightarrow> 200 | Some l \<Rightarrow> l) in
      if data_dir w = None then (Failure msg_no_dir, [])
      else
        (case sanitize sql limit of
           Reject e \<Rightarrow> (Failure e, [])
         | Raise m \<Rightarrow> (caught w (Some m), [])
         | Forward stmt \<Rightarrow>
             (case DB_exec w stmt of
                Throws m \<Rightarrow> (caught w m, [stmt])
              | NotRows \<Rightarrow> (Success [] [], [stmt])
              | Rows rs \<Rightarrow>
                  (case rs of
                     [] \<Rightarrow> (Success [] [], [stmt])
                   | r # _ \<Rightarrow> (Success (map processRow rs) (map fst r), [stmt])))))"

section \<open>Ingestion: \<^verbatim>\<open>initSqliteFromCsvs\<close>\<close>

text \<open>
  The CSV parser is a library. A file of the data directory cannot be read or parsed (the
  library raises), or it gives records: objects whose values are the strings of the
  fields, an empty field being the empty string; the derivations below also store
  \<^verbatim>\<open>null\<close>. A key that a record does not have reads as \<^verbatim>\<open>undefined\<close>.
\<close>

datatype field = FNull | FStr string

type_synonym csv_record = "(string \<times> field) list"

datatype csv_file = Unreadable | Parsed "csv_record list"

type_synonym directory = "(string \<times> csv_file) list"

text \<open>\<^verbatim>\<open>r[k] = v\<close>: an existing key keeps its place, a new key comes last.\<close>

fun obj_set :: "csv_record \<Rightarrow> string \<Rightarrow> field \<Rightarrow> csv_record" where
  "obj_set [] k v = [(k, v)]"
| "obj_set ((k', v') # r) k v = (if k' = k then (k, v) # r else (k', v') # obj_set r k v)"

text \<open>\<^verbatim>\<open>r[k] || ""\<close> on a record of strings.\<close>

definition get_or_empty :: "csv_record \<Rightarrow> string \<Rightarrow> string" where
  "get_or_empty r k = (case map_of r k of Some (FStr s) \<Rightarrow> s | _ \<Rightarrow> [])"

definition substr :: "string \<Rightarrow> nat \<Rightarrow> nat \<Rightarrow> string" where
  "substr s start len = take len (drop start s)"

text \<open>
  \<^verbatim>\<open>parseInt(s, 10)\<close>, \<open>None\<close> for \<^verbatim>\<open>NaN\<close>: leading white space, a sign, then the
  decimal digits up to the first other character. It is applied to two characters.
\<close>

definition parseInt :: "string \<Rightarrow> int option" where
  "parseInt s =
     (let t = dropWhile is_space s;
          (neg, u) = (case t of
                        [] \<Rightarrow> (False, [])
                      | c # v \<Rightarrow> if c = CHR ''-'' then (True, v)
                                 else if c = CHR ''+'' then (False, v) else (False, t));
          z = takeWhile is_digit u
      in if z = [] then None
         else Some (if neg then - digits_value 10 z else digits_value 10 z))"

text \<open>Lines 25 to 45, for one record of the table \<^verbatim>\<open>olist_orders_dataset\<close>.\<close>

definition derive_order :: "csv_record \<Rightarrow> csv_record" where
  "derive_order r =
     (let ts = trim (get_or_empty r ''order_purchase_timestamp'') in
      if ts \<noteq> [] \<and> 10 \<le> length ts then
        (let day = substr ts 0 2; month = substr ts 3 2; year = substr ts 6 4;
             timePart = (if 11 < length ts then drop 11 ts else ''00:00'');
             iso = year @ ''-'' @ month @ ''-'' @ day @ '' '' @ timePart;
             r1 = obj_set r ''order_purchase_iso'' (FStr iso);
             r2 = obj_set r1 ''order_year_month'' (FStr (year @ ''-'' @ month));
             m = parseInt (if month = [] then ''0'' else month);
             q = (case m of None \<Rightarrow> ''NaN'' | Some n \<Rightarrow> show_int ((max 1 n - 1) div 3 + 1))
         in obj_set r2 ''order_quarter'' (FStr (year @ ''-Q'' @ q)))
      else
        obj_set (obj_set (obj_set r ''order_purchase_iso'' FNull) ''order_year_month'' FNull)
          ''order_quarter'' FNull)"

text \<open>Lines 47 to 54, for one record of the table \<^verbatim>\<open>olist_order_items_dataset\<close>.\<close>

definition numeric_chars :: "string \<Rightarrow> string" where
  "numeric_chars s = filter (\<lambda>c. c \<in> set ''0123456789.-'') s"

definition or_null :: "string \<Rightarrow> field" where
  "or_null s = (if s = [] then FNull else FStr s)"

definition derive_item :: "csv_record \<Rightarrow> csv_record" where
  "derive_item r =
     (let p = numeric_chars (get_or_empty r ''price'');
          f = numeric_chars (get_or_empty r ''freight_value'')
      in obj_set (obj_set r ''price_num'' (or_null p)) ''freight_num'' (or_null f))"

definition derive :: "string \<Rightarrow> csv_record list \<Rightarrow> csv_record list" where
  "derive tname records =
     (if tname = ''olist_orders_dataset'' then map derive_order records
      else if tname = ''olist_order_items_dataset'' then map derive_item records
      else records)"

definition sanitizeName :: "string \<Rightarrow> string" where
  "sanitizeName s = map (\<lambda>c. if is_word c then c else CHR ''_'') s"

text \<open>
  The store is the database of the embedded engine: a table has its columns and its
  rows. A row is the object that the engine builds from the names of the columns of the
  \<^verbatim>\<open>INSERT\<close> statement and the values, \<^verbatim>\<open>{c1: v1, ..., cn: vn}\<close>: a name that stands
  twice holds the later value. Of a stored row only what each key holds is kept, not the
  order of its keys. The three statements of the ingestion are modelled:
  \<^verbatim>\<open>CREATE TABLE IF NOT EXISTS\<close>, \<^verbatim>\<open>SELECT COUNT(1)\<close> and \<^verbatim>\<open>INSERT\<close>. The engine may
  refuse to create a table or to insert a row, by what the statement says; the source
  catches that and goes on with the next file.
\<close>

type_synonym stored_row = "string \<rightharpoonup> jsval"

definition row_object :: "string list \<Rightarrow> jsval list \<Rightarrow> stored_row" where
  "row_object cs vals = foldl (\<lambda>obj (c, v). obj(c \<mapsto> v)) Map.empty (zip cs vals)"

record table =
  columns :: "string list"
  trows :: "stored_row list"

type_synonym store = "string \<rightharpoonup> table"

record faults =
  create_throws :: "string \<Rightarrow> string list \<Rightarrow> bool"
  insert_throws :: "string \<Rightarrow> string list \<Rightarrow> jsval list \<Rightarrow> bool"

definition create_table :: "string \<Rightarrow> string list \<Rightarrow> store \<Rightarrow> store" where
  "create_table t cs db =
     (case db t of None \<Rightarrow> db(t \<mapsto> \<lparr>columns = cs, trows = []\<rparr>) | Some tb \<Rightarrow> db)"

definition row_count :: "store \<Rightarrow> string \<Rightarrow> nat" where
  "row_count db t = (case db t of None \<Rightarrow> 0 | Some tb \<Rightarrow> length (trows tb))"

definition insert_row :: "string \<Rightarrow> string list \<Rightarrow> jsval list \<Rightarrow> store \<Rightarrow> store option" where
  "insert_row t cs vals db =
     (case db t of
        None \<Rightarrow> None
      | Some tb \<Rightarrow> Some (db(t \<mapsto> tb\<lparr>trows := trows tb @ [row_object cs vals]\<rparr>)))"

text \<open>Lines 69 to 71: the values of one record, in the order of the columns.\<close>

definition stored_value :: "field option \<Rightarrow> jsval" where
  "stored_value v = (case v of None \<Rightarrow> JNull | Some FNull \<Rightarrow> JNull | Some (FStr s) \<Rightarrow> JStr s)"

definition vals_of :: "string list \<Rightarrow> csv_record \<Rightarrow> jsval list" where
  "vals_of cols r = map (\<lambda>c. stored_value (map_of r c)) cols"

text \<open>Lines 68 to 73: the loop of the insertions stops at the first one that raises.\<close>

fun insert_all :: "faults \<Rightarrow> string \<Rightarrow> string list \<Rightarrow> csv_record list \<Rightarrow> store \<Rightarrow> store" where
  "insert_all F t cols [] db = db"
| "insert_all F t cols (r # rs) db =
     (let vals = vals_of cols r in
      if insert_throws F t (map sanitizeName cols) vals then db
      else (case insert_row t (map sanitizeName cols) vals db of
              None \<Rightarrow> db
            | Some db' \<Rightarrow> insert_all F t cols rs db'))"

text \<open>Lines 16 to 76: the body of the loop over the files.\<close>

definition load_file :: "faults \<Rightarrow> store \<Rightarrow> string \<times> csv_file \<Rightarrow> store" where
  "load_file F db entry =
     (case snd entry of
        Unreadable \<Rightarrow> db
      | Parsed parsed \<Rightarrow>
          (case parsed of
             [] \<Rightarrow> db
           | _ # _ \<Rightarrow>
               (let tname = sanitizeName (basename (fst entry) ''.csv'');
                    records = derive tname parsed;
                    cols = map fst (hd records)
                in if create_throws F tname (map sanitizeName cols) then db
                   else (let db1 = create_table tname (map sanitizeName cols) db
                         in if 0 < row_count db1 tname then db1
                            else insert_all F tname cols records db1))))"

text \<open>
  The function: a missing directory is created empty, then every entry whose name ends
  with \<^verbatim>\<open>.csv\<close> is loaded, in the order of the directory.
\<close>

definition csv_entries :: "directory option \<Rightarrow> directory" where
  "csv_entries d =
     (case d of None \<Rightarrow> [] | Some es \<Rightarrow> filter (\<lambda>e. endsWith (fst e) ''.csv'') es)"

definition initSqliteFromCsvs :: "faults \<Rightarrow> directory option \<Rightarrow> store \<Rightarrow> store" where
  "initSqliteFromCsvs F d db = foldl (load_file F) db (csv_entries d)"

section \<open>Extraction of a statement from free text: \<^verbatim>\<open>extractSql\<close>\<close>

text \<open>\<^verbatim>\<open>/SQL:\s*([\s\S]*?)(?:\n\n|$)/i\<close>\<close>

definition re_sql_prefix :: re where
  "re_sql_prefix =
     RSeq (istr ''SQL:'') (RSeq (RStar (Cls is_space))
       (RSeq (Grp (RLazy (Cls any_char))) (RAlt (str [NL, NL]) Eol)))"

text \<open>\<^verbatim>\<open>/```sql\n([\s\S]*?)```/i\<close> and \<^verbatim>\<open>/```\n([\s\S]*?)```/i\<close>\<close>

definition re_code_sql :: re where
  "re_code_sql =
     RSeq (str fence) (RSeq (istr ''sql'') (RSeq (chr NL)
       (RSeq (Grp (RLazy (Cls any_char))) (str fence))))"

definition re_code_plain :: re where
  "re_code_plain =
     RSeq (str fence) (RSeq (chr NL) (RSeq (Grp (RLazy (Cls any_char))) (str fence)))"

text \<open>\<^verbatim>\<open>/(SELECT[\s\S]*?)(?:\n\n|```|SQL:|$)/i\<close> and \<^verbatim>\<open>/(SELECT[\s\S]*)/i\<close>\<close>

definition re_select_span :: re where
  "re_select_span =
     RSeq (Grp (RSeq (istr ''SELECT'') (RLazy (Cls any_char))))
       (RAlt (str [NL, NL]) (RAlt (str fence) (RAlt (istr ''SQL:'') Eol)))"

definition re_select_rest :: re where
  "re_select_rest = Grp (RSeq (istr ''SELECT'') (RStar (Cls any_char)))"

text \<open>Group 1 of the first match, \<^verbatim>\<open>s.match(re)[1]\<close>, when there is a match.\<close>

definition match1 :: "re \<Rightarrow> string \<Rightarrow> string option" where
  "match1 r s =
     (case re_exec r s of
        None \<Rightarrow> None
      | Some (i, y) \<Rightarrow> (case cap y of None \<Rightarrow> None | Some g \<Rightarrow> Some g))"

text \<open>\<^verbatim>\<open>s.split(/\n\n/)[0]\<close>: the text before the first empty line.\<close>

definition first_paragraph :: "string \<Rightarrow> string" where
  "first_paragraph s = (case re_exec (str [NL, NL]) s of None \<Rightarrow> s | Some (i, y) \<Rightarrow> take i s)"

text \<open>The four matchers, in the order of the source; each gives a statement or nothing.\<close>

definition by_prefix :: "string \<Rightarrow> string option" where
  "by_prefix text =
     (case match1 re_sql_prefix text of
        None \<Rightarrow> None
      | Some g \<Rightarrow> (let sql = trim g in if sql \<noteq> [] then Some sql else None))"

definition by_code_block :: "string \<Rightarrow> string option" where
  "by_code_block text =
     (let codeMatch = (case match1 re_code_sql text of
                         Some g \<Rightarrow> Some g
                       | None \<Rightarrow> match1 re_code_plain text)
      in case codeMatch of
           None \<Rightarrow> None
         | Some g \<Rightarrow> (let sql = trim g
                      in if sql \<noteq> [] \<and> re_test re_select sql then Some sql else None))"

definition by_select_span :: "string \<Rightarrow> string option" where
  "by_select_span text =
     (case match1 re_select_span text of
        None \<Rightarrow> None
      | Some g \<Rightarrow> (let sql = trim g in if sql \<noteq> [] \<and> 10 < length sql then Some sql else None))"

definition by_any_select :: "string \<Rightarrow> string option" where
  "by_any_select text =
     (case match1 re_select_rest text of
        None \<Rightarrow> None
      | Some g \<Rightarrow>
          (let sql = trim g; cleaned = trim (take 5000 (first_paragraph sql))
           in if cleaned \<noteq> [] \<and> 10 < length cleaned then Some cleaned else None))"

definition extractSql :: "string \<Rightarrow> string option" where
  "extractSql text =
     (if text = [] then None
      else (case by_prefix text of
              Some sql \<Rightarrow> Some sql
            | None \<Rightarrow>
                (case by_code_block text of
                   Some sql \<Rightarrow> Some sql
                 | None \<Rightarrow>
                     (case by_select_span text of
                        Some sql \<Rightarrow> Some sql
                      | None \<Rightarrow> by_any_select text))))"

section \<open>Notions of the specification\<close>

text \<open>A text begins with a word, or contains it, whatever the case of its letters.\<close>

fun starts_with_ci :: "string \<Rightarrow> string \<Rightarrow> bool" where
  "starts_with_ci s [] = True"
| "starts_with_ci [] (c # w) = False"
| "starts_with_ci (d # s) (c # w) = (upper d = upper c \<and> starts_with_ci s w)"

fun contains_ci :: "string \<Rightarrow> string \<Rightarrow> bool" where
  "contains_ci [] w = (w = [])"
| "contains_ci (c # s) w = (starts_with_ci (c # s) w \<or> contains_ci s w)"

text \<open>The state of the matcher after \<open>n\<close> more characters of the input.\<close>

definition adv :: "mstate \<Rightarrow> nat \<Rightarrow> mstate" where
  "adv x n = MState (if n = 0 then prev x else Some (rest x ! (n - 1))) (drop n (rest x)) (cap x)"

text \<open>
  A text begins with \<^verbatim>\<open>SELECT\<close> after leading comments and white space: the expression
  of the source for that, matched at the start of the text.
\<close>

definition begins_with_select :: "string \<Rightarrow> bool" where
  "begins_with_select s \<longleftrightarrow> ends re_select_lead (MState None s None) \<noteq> []"

definition clamp :: "int \<Rightarrow> int \<Rightarrow> int \<Rightarrow> int" where
  "clamp x lo hi = (if x < lo then lo else if hi < x then hi else x)"

text \<open>A statement is accepted when neither check of the sanitizer rejects it.\<close>

definition accepted :: "string \<Rightarrow> bool" where
  "accepted sql \<longleftrightarrow>
     contains_ci (clean sql) ''SELECT'' \<and> check_where (from_select (clean sql)) = None"

text \<open>Worlds for the examples: a data directory, and an engine that answers.\<close>

definition empty_engine :: world where
  "empty_engine = \<lparr>data_dir = Some (Entries [''orders.csv'']), DB_exec = (\<lambda>stmt. Rows [])\<rparr>"

text \<open>
  A file is settled in a store when loading it again changes nothing: it gives no
  records, or its table cannot be created, or its table is there and has a row or
  refuses the first row.
\<close>

definition table_of :: "string \<times> csv_file \<Rightarrow> string" where
  "table_of entry = sanitizeName (basename (fst entry) ''.csv'')"

definition settled :: "faults \<Rightarrow> store \<Rightarrow> string \<times> csv_file \<Rightarrow> bool" where
  "settled F db entry \<longleftrightarrow>
     (case snd entry of
        Unreadable \<Rightarrow> True
      | Parsed parsed \<Rightarrow>
          parsed = [] \<or>
          (let tname = table_of entry;
               records = derive tname parsed;
               cols = map fst (hd records)
           in create_throws F tname (map sanitizeName cols) \<or>
              (db tname \<noteq> None \<and>
                 (0 < row_count db tname \<or>
                  insert_throws F tname (map sanitizeName cols) (vals_of cols (hd records))))))"

definition no_faults :: faults where
  "no_faults = \<lparr>create_throws = (\<lambda>t cs. False), insert_throws = (\<lambda>t cs vs. False)\<rparr>"

definition orders_dir :: directory where
  "orders_dir =
     [(''orders.csv'', Parsed [[(''order_id'', FStr ''A1''), (''amount'', FStr ''10.5'')],
                               [(''order_id'', FStr ''A2''), (''amount'', FStr ''bad'')]]),
      (''notes.txt'', Unreadable)]"

text \<open>
  The conversion of a cell as the specification words it: a string that is not empty and
  parses fully as a finite number (all of it, white space around it aside, is a numeric
  literal with a finite value) becomes that number, any other value stays.
\<close>

definition finite_number :: "string \<Rightarrow> jsnum option" where
  "finite_number s =
     (case StrNumericLiteral (trim s) of
        Some n \<Rightarrow> if isFinite n then Some n else None
      | None \<Rightarrow> None)"

definition coerced :: "jsval \<Rightarrow> jsval" where
  "coerced v =
     (case v of
        JStr s \<Rightarrow> if s \<noteq> [] then (case finite_number s of Some n \<Rightarrow> JNum n | None \<Rightarrow> v) else v
      | _ \<Rightarrow> v)"




definition orders_engine :: world where
  "orders_engine =
     \<lparr>data_dir = Some (Entries [''orders.csv'', ''notes.txt'']),
      DB_exec = (\<lambda>stmt. if stmt = ''SELECT * FROM [orders] LIMIT 10''
                         then Rows [[(''order_id'', JStr ''A1''), (''amount'', JStr ''10.5'')],
                                    [(''order_id'', JStr ''A2''), (''amount'', JStr ''bad'')]]
                         else Throws (Some ''no such table: customers''))\<rparr>"



definition sparse_dir :: directory where
  "sparse_dir =
     [(''orders.csv'', Parsed [[(''order_id'', FStr ''A1''), (''amount'', FStr ''10.5'')]]),
      (''empty.csv'', Parsed [])]"

definition sparse_engine :: world where
  "sparse_engine =
     \<lparr>data_dir = Some (Entries (map fst sparse_dir)),
      DB_exec = (\<lambda>stmt. Throws (Some ''no such table: customers''))\<rparr>"

text \<open>
  An error of the engine is a table error when its message has \<^verbatim>\<open>no such table\<close> or
  \<^verbatim>\<open>Table\<close> in it. A world whose data directory is a file: it exists and cannot be
  listed.
\<close>

definition table_error :: "string option \<Rightarrow> bool" where
  "table_error m \<longleftrightarrow>
     (case m of
        None \<Rightarrow> False
      | Some msg \<Rightarrow> str_includes msg ''no such table'' \<or> str_includes msg ''Table'')"

definition unlistable_engine :: world where
  "unlistable_engine =
     \<lparr>data_dir = Some (Unlistable (''ENOTDIR: not a directory, scandir 'data'' @ [CHR 0x27])),
      DB_exec = (\<lambda>stmt. Throws (Some ''no such table: customers''))\<rparr>"

text \<open>
  The words an expression matches, as a set: what an expression without anchors means,
  whatever the order in which the matcher tries. An anchor consumes nothing.
\<close>

primrec lang :: "re \<Rightarrow> string set" where
  "lang (Cls p) = {[c] | c. p c}"
| "lang Eps = {[]}"
| "lang (RSeq a b) = {u @ v | u v. u \<in> lang a \<and> v \<in> lang b}"
| "lang (RAlt a b) = lang a \<union> lang b"
| "lang (RStar a) = {concat ws | ws. set ws \<subseteq> lang a}"
| "lang (RLazy a) = {concat ws | ws. set ws \<subseteq> lang a}"
| "lang Bol = {[]}"
| "lang Eol = {[]}"
| "lang WordB = {[]}"
| "lang (Grp a) = lang a"

primrec plain :: "re \<Rightarrow> bool" where
  "plain (Cls p) = True"
| "plain Eps = True"
| "plain (RSeq a b) = (plain a \<and> plain b)"
| "plain (RAlt a b) = (plain a \<and> plain b)"
| "plain (RStar a) = plain a"
| "plain (RLazy a) = plain a"
| "plain Bol = False"
| "plain Eol = False"
| "plain WordB = False"
| "plain (Grp a) = plain a"

text \<open>
  The body of a \<^verbatim>\<open>WHERE\<close> clause is a single identifier, optionally in brackets,
  optionally followed by a bare \<^verbatim>\<open>AND\<close> or \<^verbatim>\<open>OR\<close>: no comparison and no value.
\<close>

definition single_identifier :: "string \<Rightarrow> bool" where
  "single_identifier b \<longleftrightarrow>
     (\<exists>lb ident rb sp1 conn sp2.
        b = lb @ ident @ rb @ sp1 @ conn @ sp2
        \<and> (lb = [] \<or> lb = ''['') \<and> ident \<noteq> [] \<and> list_all is_word ident
        \<and> (rb = [] \<or> rb = '']'') \<and> list_all is_space sp1
        \<and> (conn = [] \<or> map upper conn = ''AND'' \<or> map upper conn = ''OR'')
        \<and> list_all is_space sp2)"

text \<open>
  The lines of a text; the contents of its lines that begin with the marker \<^verbatim>\<open>SQL:\<close>;
  whether it has a fenced code block.
\<close>

fun split_lines :: "string \<Rightarrow> string list" where
  "split_lines [] = [[]]"
| "split_lines (c # s) =
     (if c = NL then [] # split_lines s
      else (case split_lines s of [] \<Rightarrow> [[c]] | l # ls \<Rightarrow> (c # l) # ls))"

definition sql_lines :: "string \<Rightarrow> string list" where
  "sql_lines text =
     map (\<lambda>l. trim (drop 4 l)) (filter (\<lambda>l. starts_with_ci l ''SQL:'') (split_lines text))"

definition has_code_block :: "string \<Rightarrow> bool" where
  "has_code_block text \<longleftrightarrow>
     match1 re_code_sql text \<noteq> None \<or> match1 re_code_plain text \<noteq> None"

text \<open>The matchers behind the first one, in the order of the source.\<close>

definition later_matchers :: "string \<Rightarrow> string option" where
  "later_matchers text =
     (case by_code_block text of
        Some sql \<Rightarrow> Some sql
      | None \<Rightarrow> (case by_select_span text of Some sql \<Rightarrow> Some sql | None \<Rightarrow> by_any_select text))"

text \<open>Answers of a model, for the examples.\<close>

definition code_block :: string where
  "code_block = fence @ ''sql'' @ [NL] @ ''SELECT b FROM t'' @ [NL] @ fence"

definition answer_marker_first :: string where
  "answer_marker_first =
     ''Here you go'' @ [NL, NL] @ ''SQL: SELECT a FROM t'' @ [NL] @ ''WHERE x = 1'' @ [NL, NL]
       @ code_block"

definition answer_empty_marker :: string where
  "answer_empty_marker = code_block @ [NL, NL] @ ''SQL:''"

definition answer_marker_inside :: string where
  "answer_marker_inside =
     ''Use MySQL: fast'' @ [NL, NL] @ ''SQL: SELECT a FROM t'' @ [NL, NL] @ code_block"

definition answer_marker_block :: string where
  "answer_marker_block = ''SQL: SELECT 1'' @ [NL] @ fence @ ''sql'' @ [NL] @ ''SELECT 2'' @ [NL] @ fence"

definition answer_blank_marker :: string where
  "answer_blank_marker = code_block @ [NL] @ ''sql:'' @ ('' '' @ [NL])"

text \<open>
  A statement has a \<^verbatim>\<open>LIMIT\<close> clause: somewhere in it, not right after a word
  character, stands the word in any case, then white space, then a digit.
\<close>

definition has_limit_clause :: "string \<Rightarrow> bool" where
  "has_limit_clause s \<longleftrightarrow>
     (\<exists>pre l ws ds post.
        s = pre @ l @ ws @ ds @ post
        \<and> (pre = [] \<or> \<not> is_word (last pre)) \<and> map upper l = ''LIMIT''
        \<and> ws \<noteq> [] \<and> list_all is_space ws \<and> ds \<noteq> [] \<and> list_all is_digit ds)"

text \<open>
  A keyword at the start of a text: the word in any case, with no word character right
  behind it. Two keywords, as in \<^verbatim>\<open>GROUP BY\<close>: the first, white space, the second.
\<close>

definition keyword_at :: "string \<Rightarrow> string \<Rightarrow> bool" where
  "keyword_at kw r \<longleftrightarrow> starts_with_ci r kw \<and> \<not> word_at (next_char (drop (length kw) r))"

definition keyword_pair :: "string \<Rightarrow> string \<Rightarrow> string \<Rightarrow> bool" where
  "keyword_pair kw1 kw2 r \<longleftrightarrow>
     keyword_at kw1 r \<and> drop (length kw1) r \<noteq> [] \<and> is_space (hd (drop (length kw1) r))
     \<and> keyword_at kw2 (dropWhile is_space (drop (length kw1) r))"

text \<open>
  Where the body of a \<^verbatim>\<open>WHERE\<close> clause ends, as the specification has it: at the end of
  the statement, or before the keywords \<^verbatim>\<open>GROUP BY\<close>, \<^verbatim>\<open>ORDER BY\<close> or \<^verbatim>\<open>LIMIT\<close>;
  \<open>before\<close> is the character in front, which is not a word character.
\<close>

definition clause_end :: "char option \<Rightarrow> string \<Rightarrow> bool" where
  "clause_end before r \<longleftrightarrow>
     r = [] \<or>
     (\<not> word_at before \<and>
        (keyword_pair ''GROUP'' ''BY'' r \<or> keyword_pair ''ORDER'' ''BY'' r \<or> keyword_at ''LIMIT'' r))"

text \<open>
  A statement with its \<^verbatim>\<open>WHERE\<close> clause set apart: \<open>pre\<close> has no \<^verbatim>\<open>WHERE\<close> and does not end
  in a word character, \<open>m\<close> is the keyword, \<open>ws\<close> the white space behind it, \<open>body\<close> the
  text from there up to the first end of the clause, \<open>tail\<close> what is left.
\<close>

definition where_clause :: "string \<Rightarrow> string \<Rightarrow> string \<Rightarrow> string \<Rightarrow> string \<Rightarrow> string \<Rightarrow> bool" where
  "where_clause stmt pre m ws body tail \<longleftrightarrow>
     stmt = pre @ m @ ws @ body @ tail
     \<and> map upper m = ''WHERE''
     \<and> (pre = [] \<or> \<not> is_word (last pre))
     \<and> list_all (\<lambda>k. \<not> starts_with_ci (drop k stmt) ''WHERE'') [0..<length pre]
     \<and> ws \<noteq> [] \<and> list_all is_space ws
     \<and> body \<noteq> [] \<and> \<not> is_space (hd body)
     \<and> list_all (\<lambda>j. \<not> clause_end (Some ((ws @ body) ! (length ws + j - 1)))
                          (drop j (body @ tail))) [0..<length body]
     \<and> clause_end (Some (last body)) tail"

section \<open>The matcher: what it reaches\<close>

lemma adv_0 [simp]: "adv x 0 = x"
  by (simp add: adv_def)

lemma rest_adv [simp]: "rest (adv x n) = drop n (rest x)"
  by (simp add: adv_def)

lemma cap_adv [simp]: "cap (adv x n) = cap x"
  by (simp add: adv_def)

lemma adv_adv: "a \<le> length (rest x) \<Longrightarrow> adv (adv x a) b = adv x (a + b)"
  by (cases b) (auto simp: adv_def add.commute)

lemma star_suffix:
  "(\<And>x y. y \<in> set (f x) \<Longrightarrow> suffix (rest y) (rest x)) \<Longrightarrow> y \<in> set (star f x)
     \<Longrightarrow> suffix (rest y) (rest x)"
proof (induction f x arbitrary: y rule: star.induct)
  case (1 f x)
  from "1.prems"(2) consider "y = x"
    | z where "z \<in> set (f x)" "length (rest z) < length (rest x)" "y \<in> set (star f z)"
    by (subst (asm) star.simps) auto
  then show ?case
  proof cases
    case 1
    then show ?thesis by simp
  next
    case 2
    then have "suffix (rest y) (rest z)" using "1.IH" "1.prems"(1) by auto
    moreover have "suffix (rest z) (rest x)" using 2 "1.prems"(1) by auto
    ultimately show ?thesis by (rule suffix_order.trans)
  qed
qed

lemma lazy_suffix:
  "(\<And>x y. y \<in> set (f x) \<Longrightarrow> suffix (rest y) (rest x)) \<Longrightarrow> y \<in> set (lazy f x)
     \<Longrightarrow> suffix (rest y) (rest x)"
proof (induction f x arbitrary: y rule: lazy.induct)
  case (1 f x)
  from "1.prems"(2) consider "y = x"
    | z where "z \<in> set (f x)" "length (rest z) < length (rest x)" "y \<in> set (lazy f z)"
    by (subst (asm) lazy.simps) auto
  then show ?case
  proof cases
    case 1
    then show ?thesis by simp
  next
    case 2
    then have "suffix (rest y) (rest z)" using "1.IH" "1.prems"(1) by auto
    moreover have "suffix (rest z) (rest x)" using 2 "1.prems"(1) by auto
    ultimately show ?thesis by (rule suffix_order.trans)
  qed
qed

lemma ends_suffix: "y \<in> set (ends r x) \<Longrightarrow> suffix (rest y) (rest x)"
proof (induction r arbitrary: x y)
  case (Cls p)
  then show ?case by (cases "rest x") (auto split: if_splits simp: suffix_Cons)
next
  case (RSeq a b)
  then obtain z where "z \<in> set (ends a x)" "y \<in> set (ends b z)" by auto
  then show ?case using RSeq.IH by (blast intro: suffix_order.trans)
next
  case (RStar a)
  then show ?case using star_suffix [of "ends a"] by auto
next
  case (RLazy a)
  then show ?case using lazy_suffix [of "ends a"] by auto
qed (auto split: if_splits)

lemma star_self: "x \<in> set (star f x)"
  by (subst star.simps) simp

lemma lazy_self: "x \<in> set (lazy f x)"
  by (subst lazy.simps) simp

lemma ends_istr:
  "ends (istr w) x = (if starts_with_ci (rest x) w then [adv x (length w)] else [])"
proof (induction w arbitrary: x)
  case Nil
  then show ?case by (simp add: istr_def)
next
  case (Cons c w)
  have step: "istr (c # w) = RSeq (ichr c) (istr w)" by (simp add: istr_def)
  show ?case
  proof (cases "rest x")
    case Nil
    then show ?thesis by (simp add: step ichr_def)
  next
    case (Cons d t)
    have a1: "adv x (Suc 0) = MState (Some d) t (cap x)"
      using Cons by (simp add: adv_def)
    have a2: "adv (MState (Some d) t (cap x)) (length w) = adv x (Suc (length w))"
      using adv_adv [of "Suc 0" x "length w"] a1 Cons by simp
    show ?thesis using Cons Cons.IH [of "MState (Some d) t (cap x)"] a2
      by (simp add: step ichr_def)
  qed
qed

lemma search_from_None:
  "search_from r p s i = None \<longleftrightarrow> (\<forall>k\<le>length s. ends r (adv (MState p s None) k) = [])"
proof (induction s arbitrary: p i)
  case Nil
  then show ?case by (auto split: list.splits)
next
  case (Cons c cs)
  have shift: "adv (MState p (c # cs) None) (Suc k) = adv (MState (Some c) cs None) k" for k
    by (cases k) (auto simp: adv_def)
  have "(\<forall>k\<le>length (c # cs). ends r (adv (MState p (c # cs) None) k) = []) \<longleftrightarrow>
        ends r (MState p (c # cs) None) = []
          \<and> (\<forall>k\<le>length cs. ends r (adv (MState (Some c) cs None) k) = [])"
    (is "?L \<longleftrightarrow> ?R")
  proof
    assume l: ?L
    have "ends r (adv (MState p (c # cs) None) 0) = []" using l by blast
    moreover have "ends r (adv (MState (Some c) cs None) k) = []" if "k \<le> length cs" for k
      using l that shift [of k] by (metis Suc_le_mono length_Cons)
    ultimately show ?R by simp
  next
    assume r: ?R
    show ?L
    proof (intro allI impI)
      fix k assume "k \<le> length (c # cs)"
      then show "ends r (adv (MState p (c # cs) None) k) = []"
        using r shift by (cases k) auto
    qed
  qed
  then show ?case using Cons.IH [of "Some c" "Suc i"] by (auto split: list.splits)
qed

lemma contains_ci_iff:
  "contains_ci s w \<longleftrightarrow> (\<exists>k\<le>length s. starts_with_ci (drop k s) w)"
proof (induction s)
  case Nil
  then show ?case by (cases w) auto
next
  case (Cons c s)
  have "(\<exists>k\<le>length (c # s). starts_with_ci (drop k (c # s)) w) \<longleftrightarrow>
        starts_with_ci (c # s) w \<or> (\<exists>k\<le>length s. starts_with_ci (drop k s) w)"
    (is "?L \<longleftrightarrow> ?R")
  proof
    assume ?L
    then obtain k where k: "k \<le> length (c # s)" "starts_with_ci (drop k (c # s)) w" by blast
    then show ?R by (cases k) auto
  next
    assume ?R
    then show ?L
    proof
      assume "starts_with_ci (c # s) w"
      then have "0 \<le> length (c # s) \<and> starts_with_ci (drop 0 (c # s)) w" by simp
      then show ?L by blast
    next
      assume "\<exists>k\<le>length s. starts_with_ci (drop k s) w"
      then obtain k where "k \<le> length s" "starts_with_ci (drop k s) w" by blast
      then have "Suc k \<le> length (c # s) \<and> starts_with_ci (drop (Suc k) (c # s)) w" by simp
      then show ?L by blast
    qed
  qed
  then show ?case using Cons.IH by simp
qed

lemma contains_ci_suffix: "suffix t s \<Longrightarrow> starts_with_ci t w \<Longrightarrow> contains_ci s w"
proof -
  assume a: "suffix t s" "starts_with_ci t w"
  then obtain u where "s = u @ t" by (auto simp: suffix_def)
  then have "length u \<le> length s \<and> starts_with_ci (drop (length u) s) w" using a by simp
  then show ?thesis unfolding contains_ci_iff by blast
qed

text \<open>
  The expression that guards the function has no anchor: it matches as soon as the
  word occurs anywhere in the text.
\<close>

lemma select_lead_iff: "re_exec re_select_lead s \<noteq> None \<longleftrightarrow> contains_ci s ''SELECT''"
proof
  assume "re_exec re_select_lead s \<noteq> None"
  then obtain k where k: "k \<le> length s" "ends re_select_lead (adv (MState None s None) k) \<noteq> []"
    unfolding re_exec_def search_from_None by blast
  then obtain A z where z: "z \<in> set (ends (RStar A) (adv (MState None s None) k))"
     "starts_with_ci (rest z) ''SELECT''"
    unfolding re_select_lead_def by (auto simp: ends_istr split: if_splits)
  have "suffix (rest z) (drop k s)"
    using ends_suffix [OF z(1)] by simp
  then have "suffix (rest z) s" by (meson suffix_drop suffix_order.trans)
  then show "contains_ci s ''SELECT''" using z(2) by (rule contains_ci_suffix)
next
  assume "contains_ci s ''SELECT''"
  then obtain k where k: "k \<le> length s" "starts_with_ci (drop k s) ''SELECT''"
    unfolding contains_ci_iff by blast
  have "ends re_select_lead (adv (MState None s None) k) \<noteq> []"
    unfolding re_select_lead_def using k(2) star_self
    by (fastforce simp: ends_istr)
  then show "re_exec re_select_lead s \<noteq> None"
    unfolding re_exec_def search_from_None using k(1) by blast
qed

lemma begins_contains: "begins_with_select s \<Longrightarrow> contains_ci s ''SELECT''"
proof -
  assume "begins_with_select s"
  then have "0 \<le> length s \<and> ends re_select_lead (adv (MState None s None) 0) \<noteq> []"
    by (simp add: begins_with_select_def)
  then have "re_exec re_select_lead s \<noteq> None"
    unfolding re_exec_def search_from_None by blast
  then show ?thesis unfolding select_lead_iff .
qed

section \<open>The sanitizer\<close>

lemma sanitize_no_select:
  "\<not> contains_ci (clean sql) ''SELECT'' \<Longrightarrow>
   sanitize sql limit =
     Reject (if length (clean sql) < 10 then msg_too_short else msg_only_select (clean sql))"
  using select_lead_iff [of "clean sql"] by (simp add: sanitize_def Let_def)

lemma sanitize_accepted:
  "accepted sql \<Longrightarrow>
   sanitize sql limit = Forward (limited (from_select (clean sql)) limit)"
  using select_lead_iff [of "clean sql"] by (auto simp: sanitize_def Let_def accepted_def)

lemma execute_reject:
  "data_dir w \<noteq> None \<Longrightarrow> sanitize sql (case limit of None \<Rightarrow> 200 | Some l \<Rightarrow> l) = Reject e \<Longrightarrow>
   executeSqlite w sql limit = (Failure e, [])"
  by (auto simp: executeSqlite_def Let_def)

lemma execute_forward:
  "data_dir w \<noteq> None \<Longrightarrow> sanitize sql (case limit of None \<Rightarrow> 200 | Some l \<Rightarrow> l) = Forward stmt \<Longrightarrow>
   snd (executeSqlite w sql limit) = [stmt]"
  by (auto simp: executeSqlite_def Let_def split: engine_outcome.splits list.splits)

text \<open>
  C7. When the data directory does not exist, \<^verbatim>\<open>executeSqlite\<close> returns, for every
  statement and limit, the failure result whose error names the missing data directory;
  it returns before the engine is called and it raises nothing.
\<close>

theorem missing_directory_fails:
  "data_dir w = None \<Longrightarrow>
   executeSqlite w sql limit =
     (Failure ''Local data directory not found. Add CSV files into /data and restart.'', [])
   \<and> \<not> executed (fst (executeSqlite w sql limit))"
  by (simp add: executeSqlite_def Let_def msg_no_dir_def executed_def)

theorem missing_directory_fails_witness:
  "data_dir (empty_engine\<lparr>data_dir := None\<rparr>) = None
   \<and> executeSqlite (empty_engine\<lparr>data_dir := None\<rparr>) ''SELECT * FROM orders'' (Some 10) =
       (Failure ''Local data directory not found. Add CSV files into /data and restart.'', [])
   \<and> \<not> executed (fst (executeSqlite (empty_engine\<lparr>data_dir := None\<rparr>)
                          ''SELECT * FROM orders'' (Some 10)))"
proof -
  have h: "data_dir (empty_engine\<lparr>data_dir := None\<rparr>) = None" by simp
  show ?thesis
    using h missing_directory_fails [OF h, of "''SELECT * FROM orders''" "Some 10"] by blast
qed

text \<open>
  C10. When the cleaned text contains no \<^verbatim>\<open>SELECT\<close> in any case and is shorter than
  ten characters, the result is the failure with the message for an empty or too short
  query, which is not the message for the longer texts without \<^verbatim>\<open>SELECT\<close>. The data
  directory exists: without it the function returns before it looks at the text.
\<close>

theorem too_short_message:
  "data_dir w \<noteq> None \<Longrightarrow> \<not> contains_ci (clean sql) ''SELECT'' \<Longrightarrow> length (clean sql) < 10 \<Longrightarrow>
   executeSqlite w sql limit = (Failure ''SQL query appears to be empty or too short.'', [])
   \<and> ''SQL query appears to be empty or too short.'' \<noteq> msg_only_select t"
proof -
  assume a: "data_dir w \<noteq> None" "\<not> contains_ci (clean sql) ''SELECT''" "length (clean sql) < 10"
  have "sanitize sql (case limit of None \<Rightarrow> 200 | Some l \<Rightarrow> l) = Reject msg_too_short"
    using sanitize_no_select [OF a(2)] a(3) by simp
  then have "executeSqlite w sql limit = (Failure msg_too_short, [])"
    using a(1) by (rule execute_reject [rotated])
  moreover have "''SQL query appears to be empty or too short.'' \<noteq> msg_only_select t"
    by (simp add: msg_only_select_def)
  ultimately show ?thesis by (simp add: msg_too_short_def)
qed

theorem too_short_message_witness:
  "data_dir empty_engine \<noteq> None \<and> \<not> contains_ci (clean ''DROP t;'') ''SELECT''
   \<and> length (clean ''DROP t;'') < 10
   \<and> executeSqlite empty_engine ''DROP t;'' None =
       (Failure ''SQL query appears to be empty or too short.'', [])"
proof -
  have h1: "data_dir empty_engine \<noteq> None" by (simp add: empty_engine_def)
  have h2: "clean ''DROP t;'' = ''DROP t''" by code_simp
  have h3: "\<not> contains_ci ''DROP t'' ''SELECT''" by code_simp
  show ?thesis
    using too_short_message [of empty_engine "''DROP t;''" None] h1 h2 h3 by simp
qed

text \<open>
  C1, as the specification states it: every text that does not begin with \<^verbatim>\<open>SELECT\<close>
  after leading comments and white space is rejected with a reason that reports a prefix
  of the text, and nothing reaches the engine. The function does otherwise on two
  kinds of text. A text shorter than ten characters gets the message of a too short
  query, which reports nothing of the text. And the guard has no anchor, so a text
  that has \<^verbatim>\<open>SELECT\<close> further on is cut to start there and goes to the engine.
\<close>

theorem non_select_counterexample:
  "\<not> begins_with_select (clean ''DROP t'')
   \<and> executeSqlite empty_engine ''DROP t'' None =
       (Failure ''SQL query appears to be empty or too short.'', [])
   \<and> \<not> str_includes ''SQL query appears to be empty or too short.'' (take 1 (clean ''DROP t''))
   \<and> \<not> begins_with_select (clean ''DROP TABLE x; SELECT 1'')
   \<and> executeSqlite empty_engine ''DROP TABLE x; SELECT 1'' None =
       (Success [] [], [''SELECT 1 LIMIT 200''])"
  by code_simp

text \<open>
  C1, amended: when the cleaned text contains no \<^verbatim>\<open>SELECT\<close> in any case (so it does not
  begin with one either) and the data directory exists, the result is a failure and
  nothing is passed to the engine; the error is the message of a too short query when
  the cleaned text has fewer than ten characters, and otherwise the message that only
  \<^verbatim>\<open>SELECT\<close> is allowed, with the first fifty characters of the cleaned text.
\<close>

theorem no_select_rejected:
  "data_dir w \<noteq> None \<Longrightarrow> \<not> contains_ci (clean sql) ''SELECT'' \<Longrightarrow>
   \<not> begins_with_select (clean sql)
   \<and> executeSqlite w sql limit =
       (Failure (if length (clean sql) < 10 then ''SQL query appears to be empty or too short.''
                 else ''Only SELECT queries are allowed for security reasons. Query must start with SELECT. Got: ''
                        @ take 50 (clean sql) @ ''...''), [])"
proof -
  assume a: "data_dir w \<noteq> None" "\<not> contains_ci (clean sql) ''SELECT''"
  have "executeSqlite w sql limit =
          (Failure (if length (clean sql) < 10 then msg_too_short else msg_only_select (clean sql)), [])"
    using a(1) sanitize_no_select [OF a(2)] by (rule execute_reject)
  moreover have "\<not> begins_with_select (clean sql)"
    using a(2) begins_contains by blast
  ultimately show ?thesis by (simp add: msg_too_short_def msg_only_select_def)
qed

theorem no_select_rejected_witness:
  "data_dir empty_engine \<noteq> None \<and> \<not> contains_ci (clean ''DROP TABLE x'') ''SELECT''
   \<and> executeSqlite empty_engine ''DROP TABLE x'' None =
       (Failure ''Only SELECT queries are allowed for security reasons. Query must start with SELECT. Got: DROP TABLE x...'', [])
   \<and> \<not> contains_ci (clean ''DELETE FROM x'') ''SELECT''
   \<and> executeSqlite empty_engine ''DELETE FROM x'' None =
       (Failure ''Only SELECT queries are allowed for security reasons. Query must start with SELECT. Got: DELETE FROM x...'', [])"
proof -
  have h1: "data_dir empty_engine \<noteq> None" by (simp add: empty_engine_def)
  have c1: "clean ''DROP TABLE x'' = ''DROP TABLE x''" by code_simp
  have c2: "clean ''DELETE FROM x'' = ''DELETE FROM x''" by code_simp
  have n1: "\<not> contains_ci ''DROP TABLE x'' ''SELECT''" by code_simp
  have n2: "\<not> contains_ci ''DELETE FROM x'' ''SELECT''" by code_simp
  show ?thesis
    using no_select_rejected [of empty_engine "''DROP TABLE x''" None]
      no_select_rejected [of empty_engine "''DELETE FROM x''" None] h1 c1 c2 n1 n2
    by simp
qed

lemma clamp_max_min: "max 1 (min 1000 l) = clamp l 1 1000"
  by (simp add: clamp_def)

section \<open>Ingestion\<close>

lemma create_table_other: "t' \<noteq> t \<Longrightarrow> create_table t cs db t' = db t'"
  by (simp add: create_table_def split: option.splits)

lemma create_table_exists: "create_table t cs db t \<noteq> None"
  by (simp add: create_table_def split: option.splits)

lemma create_table_id: "db t \<noteq> None \<Longrightarrow> create_table t cs db = db"
  by (auto simp: create_table_def split: option.splits)

lemma create_table_keeps: "db t' \<noteq> None \<Longrightarrow> create_table t cs db t' \<noteq> None"
  by (auto simp: create_table_def split: option.splits)

lemma create_table_count: "row_count (create_table t cs db) t' = row_count db t'"
  by (auto simp: create_table_def row_count_def split: option.splits)

lemma insert_all_other: "t' \<noteq> t \<Longrightarrow> insert_all F t cols rs db t' = db t'"
  by (induction rs arbitrary: db) (auto simp: Let_def insert_row_def split: option.splits)

lemma insert_all_keeps: "db t' \<noteq> None \<Longrightarrow> insert_all F t cols rs db t' \<noteq> None"
  by (induction rs arbitrary: db) (auto simp: Let_def insert_row_def split: option.splits)

lemma insert_all_count: "row_count db t' \<le> row_count (insert_all F t cols rs db) t'"
proof (induction rs arbitrary: db)
  case Nil
  then show ?case by simp
next
  case (Cons r rs)
  show ?case
  proof (cases "insert_throws F t (map sanitizeName cols) (vals_of cols r)")
    case True
    then show ?thesis by simp
  next
    case False
    show ?thesis
    proof (cases "insert_row t (map sanitizeName cols) (vals_of cols r) db")
      case None
      then show ?thesis using False by simp
    next
      case (Some db')
      then have "row_count db t' \<le> row_count db' t'"
        by (auto simp: insert_row_def row_count_def split: option.splits if_splits)
      then show ?thesis using False Some Cons.IH [of db'] by (simp add: Let_def)
    qed
  qed
qed

lemma insert_all_first:
  "db t \<noteq> None \<Longrightarrow> \<not> insert_throws F t (map sanitizeName cols) (vals_of cols r) \<Longrightarrow>
   0 < row_count (insert_all F t cols (r # rs) db) t"
proof -
  assume a: "db t \<noteq> None" "\<not> insert_throws F t (map sanitizeName cols) (vals_of cols r)"
  then obtain tb where tb: "db t = Some tb" by auto
  define db' where "db' = db(t \<mapsto> tb\<lparr>trows := trows tb @ [row_object (map sanitizeName cols) (vals_of cols r)]\<rparr>)"
  have "insert_row t (map sanitizeName cols) (vals_of cols r) db = Some db'"
    by (simp add: insert_row_def tb db'_def)
  then have "insert_all F t cols (r # rs) db = insert_all F t cols rs db'"
    using a(2) by simp
  moreover have "0 < row_count db' t" by (simp add: db'_def row_count_def)
  ultimately show ?thesis using insert_all_count [of db' t F t cols rs] by simp
qed

lemma derive_length: "length (derive t rs) = length rs"
  by (simp add: derive_def)

lemma derive_Nil: "derive t rs = [] \<longleftrightarrow> rs = []"
  using derive_length [of t rs] by (metis length_0_conv)

text \<open>Loading a file touches its own table only, and takes nothing away.\<close>

lemma load_file_other: "t' \<noteq> table_of e \<Longrightarrow> load_file F db e t' = db t'"
  by (auto simp: load_file_def table_of_def Let_def create_table_other insert_all_other
      split: csv_file.splits list.splits)

lemma load_file_keeps: "db t' \<noteq> None \<Longrightarrow> load_file F db e t' \<noteq> None"
proof -
  assume a: "db t' \<noteq> None"
  have A: "create_table t cs db t' \<noteq> None" for t cs
    using a by (rule create_table_keeps)
  have B: "insert_all F t cols rs (create_table t cs db) t' \<noteq> None" for t cols rs cs
    using A by (rule insert_all_keeps)
  show ?thesis
    using a A B by (auto simp: load_file_def Let_def split: csv_file.splits list.splits)
qed

lemma load_file_count: "row_count db t' \<le> row_count (load_file F db e) t'"
proof -
  have "row_count db t' \<le> row_count (insert_all F t cols rs (create_table t cs db)) t'"
    for t cols rs cs
    using insert_all_count [of "create_table t cs db" t' F t cols rs]
    by (simp add: create_table_count)
  then show ?thesis
    by (auto simp: load_file_def Let_def create_table_count split: csv_file.splits list.splits)
qed

lemma settled_id: "settled F db e \<Longrightarrow> load_file F db e = db"
proof (cases "snd e")
  case Unreadable
  then show ?thesis by (simp add: load_file_def)
next
  case (Parsed parsed)
  assume s: "settled F db e"
  show ?thesis
  proof (cases parsed)
    case Nil
    then show ?thesis using Parsed by (simp add: load_file_def)
  next
    case (Cons p ps)
    define tname where "tname = table_of e"
    define records where "records = derive tname parsed"
    define cols where "cols = map fst (hd records)"
    obtain r rs where rs: "records = r # rs"
      using Cons derive_Nil [of tname parsed] unfolding records_def
      by (cases "derive tname parsed") auto
    have lf: "load_file F db e =
        (if create_throws F tname (map sanitizeName cols) then db
         else (let db1 = create_table tname (map sanitizeName cols) db
               in if 0 < row_count db1 tname then db1
                  else insert_all F tname cols records db1))"
      using Parsed Cons
      by (simp add: load_file_def tname_def table_of_def records_def cols_def Let_def)
    from s have "create_throws F tname (map sanitizeName cols) \<or>
       (db tname \<noteq> None \<and> (0 < row_count db tname \<or>
          insert_throws F tname (map sanitizeName cols) (vals_of cols (hd records))))"
      using Parsed Cons by (simp add: settled_def tname_def records_def cols_def Let_def)
    then show ?thesis
    proof
      assume "create_throws F tname (map sanitizeName cols)"
      then show ?thesis by (simp add: lf)
    next
      assume b: "db tname \<noteq> None \<and> (0 < row_count db tname \<or>
          insert_throws F tname (map sanitizeName cols) (vals_of cols (hd records)))"
      then have "create_table tname (map sanitizeName cols) db = db"
        by (simp add: create_table_id)
      then show ?thesis using b rs by (auto simp: lf Let_def)
    qed
  qed
qed

lemma load_settles: "settled F (load_file F db e) e"
proof (cases "snd e")
  case Unreadable
  then show ?thesis by (simp add: settled_def)
next
  case (Parsed parsed)
  show ?thesis
  proof (cases parsed)
    case Nil
    then show ?thesis using Parsed by (simp add: settled_def)
  next
    case (Cons p ps)
    define tname where "tname = table_of e"
    define records where "records = derive tname parsed"
    define cols where "cols = map fst (hd records)"
    define db1 where "db1 = create_table tname (map sanitizeName cols) db"
    obtain r rs where rs: "records = r # rs"
      using Cons derive_Nil [of tname parsed] unfolding records_def
      by (cases "derive tname parsed") auto
    have lf: "load_file F db e =
        (if create_throws F tname (map sanitizeName cols) then db
         else if 0 < row_count db1 tname then db1
         else insert_all F tname cols records db1)"
      using Parsed Cons
      by (simp add: load_file_def tname_def table_of_def records_def cols_def Let_def db1_def)
    have goal: "settled F d e \<longleftrightarrow> create_throws F tname (map sanitizeName cols) \<or>
       (d tname \<noteq> None \<and> (0 < row_count d tname \<or>
          insert_throws F tname (map sanitizeName cols) (vals_of cols r)))" for d
      using Parsed Cons rs by (simp add: settled_def tname_def records_def cols_def Let_def)
    have ex: "db1 tname \<noteq> None" by (simp add: db1_def create_table_exists)
    show ?thesis
    proof (cases "create_throws F tname (map sanitizeName cols)")
      case True
      then show ?thesis by (simp add: goal)
    next
      case False
      show ?thesis
      proof (cases "0 < row_count db1 tname")
        case True
        then show ?thesis using False ex by (simp add: goal lf)
      next
        case nz: False
        show ?thesis
        proof (cases "insert_throws F tname (map sanitizeName cols) (vals_of cols r)")
          case True
          then show ?thesis using False nz ex rs by (simp add: goal lf)
        next
          case nt: False
          have "0 < row_count (insert_all F tname cols (r # rs) db1) tname"
            using ex nt by (rule insert_all_first)
          moreover have "insert_all F tname cols (r # rs) db1 tname \<noteq> None"
            using ex by (rule insert_all_keeps)
          ultimately show ?thesis using False nz rs by (simp add: goal lf)
        qed
      qed
    qed
  qed
qed

lemma settled_mono: "settled F db e \<Longrightarrow> settled F (load_file F db g) e"
proof -
  assume s: "settled F db e"
  have k: "db t \<noteq> None \<Longrightarrow> load_file F db g t \<noteq> None" for t by (rule load_file_keeps)
  have c: "0 < row_count db t \<Longrightarrow> 0 < row_count (load_file F db g) t" for t
    using load_file_count [of db t F g] by simp
  show ?thesis
    using s k c by (auto simp: settled_def Let_def split: csv_file.splits)
qed

lemma settled_foldl: "settled F db e \<Longrightarrow> settled F (foldl (load_file F) db es) e"
  by (induction es arbitrary: db) (auto intro: settled_mono)

lemma foldl_settles: "e \<in> set es \<Longrightarrow> settled F (foldl (load_file F) db es) e"
proof (induction es arbitrary: db)
  case Nil
  then show ?case by simp
next
  case (Cons g es)
  show ?case
  proof (cases "e = g")
    case True
    then show ?thesis using settled_foldl [OF load_settles] by simp
  next
    case False
    then show ?thesis using Cons by simp
  qed
qed

lemma all_settled_id: "(\<And>e. e \<in> set es \<Longrightarrow> settled F db e) \<Longrightarrow> foldl (load_file F) db es = db"
  by (induction es) (auto simp: settled_id)

lemma init_idempotent:
  "initSqliteFromCsvs F d (initSqliteFromCsvs F d db) = initSqliteFromCsvs F d db"
  unfolding initSqliteFromCsvs_def by (rule all_settled_id) (rule foldl_settles)

lemma load_file_nonempty_table: "0 < row_count db t \<Longrightarrow> load_file F db e t = db t"
proof (cases "t = table_of e")
  case False
  then show ?thesis by (simp add: load_file_other)
next
  case True
  assume "0 < row_count db t"
  then have "settled F db e"
    using True by (auto simp: settled_def Let_def row_count_def split: csv_file.splits option.splits)
  then show ?thesis by (simp add: settled_id)
qed

lemma foldl_nonempty_table:
  "0 < row_count db t \<Longrightarrow> foldl (load_file F) db es t = db t"
proof (induction es arbitrary: db)
  case Nil
  then show ?case by simp
next
  case (Cons e es)
  have eq: "load_file F db e t = db t" using Cons.prems by (rule load_file_nonempty_table)
  then have "0 < row_count (load_file F db e) t" using Cons.prems by (simp add: row_count_def)
  then show ?case using Cons.IH [of "load_file F db e"] eq by simp
qed

text \<open>
  C2. Ingestion is idempotent: for every data directory, every store to start from and
  whatever the engine refuses, a second run of \<^verbatim>\<open>initSqliteFromCsvs\<close> leaves the store
  of the first run as it is, so every table has the same number of rows after two runs
  as after one; and a table that has a row when a run starts is not touched by that run.
\<close>

theorem ingestion_idempotent:
  "(\<forall>t. row_count (initSqliteFromCsvs F d (initSqliteFromCsvs F d db)) t =
          row_count (initSqliteFromCsvs F d db) t)
   \<and> (\<forall>t. 0 < row_count db t \<longrightarrow> initSqliteFromCsvs F d db t = db t)"
proof -
  have "0 < row_count db t \<Longrightarrow> initSqliteFromCsvs F d db t = db t" for t
    unfolding initSqliteFromCsvs_def by (rule foldl_nonempty_table)
  then show ?thesis by (simp add: init_idempotent)
qed

theorem ingestion_idempotent_witness:
  "row_count (initSqliteFromCsvs no_faults (Some orders_dir) Map.empty) ''orders'' = 2
   \<and> row_count (initSqliteFromCsvs no_faults (Some orders_dir)
        (initSqliteFromCsvs no_faults (Some orders_dir) Map.empty)) ''orders'' = 2
   \<and> initSqliteFromCsvs no_faults (Some orders_dir)
        (initSqliteFromCsvs no_faults (Some orders_dir) Map.empty) ''orders'' =
      initSqliteFromCsvs no_faults (Some orders_dir) Map.empty ''orders''"
proof -
  have c: "row_count (initSqliteFromCsvs no_faults (Some orders_dir) Map.empty) ''orders'' = 2"
    by code_simp
  show ?thesis
    using c ingestion_idempotent [of no_faults "Some orders_dir" "Map.empty"]
      ingestion_idempotent [of no_faults "Some orders_dir"
        "initSqliteFromCsvs no_faults (Some orders_dir) Map.empty"]
    by simp
qed


















section \<open>The executor\<close>

lemma catch_error_other: "\<not> table_error m \<Longrightarrow> \<exists>e. catch_error w m = Inr e"
proof (cases m)
  case None
  have "\<not> str_includes ''Unknown error'' ''no such table'' \<and> \<not> str_includes ''Unknown error'' ''Table''"
    by code_simp
  then show ?thesis using None by (simp add: catch_error_def Let_def)
next
  case (Some msg)
  assume "\<not> table_error m"
  then have n: "\<not> str_includes msg ''no such table''" "\<not> str_includes msg ''Table''"
    using Some by (simp_all add: table_error_def)
  have u: "\<not> str_includes ''Unknown error'' ''no such table'' \<and> \<not> str_includes ''Unknown error'' ''Table''"
    by code_simp
  show ?thesis using Some n u by (simp add: catch_error_def Let_def)
qed

lemma catch_error_listed:
  "data_dir w = Some (Entries entries) \<Longrightarrow> \<exists>e. catch_error w m = Inr e"
  by (simp add: catch_error_def Let_def msg_table_def listCsvFiles_def)

lemma catch_error_table:
  "data_dir w = Some (Entries entries) \<Longrightarrow> str_includes msg ''no such table'' \<Longrightarrow>
   catch_error w (Some msg) =
     Inr (''Table not found. Available tables: '' @
          join '', '' (map (\<lambda>f. basename f ''.csv'') (filter (\<lambda>f. endsWith f ''.csv'') entries)))"
proof -
  assume a: "data_dir w = Some (Entries entries)" "str_includes msg ''no such table''"
  have "msg \<noteq> []" using a(2) by auto
  then show ?thesis using a
    by (simp add: catch_error_def msg_table_def listCsvFiles_def comp_def)
qed

text \<open>
  C8, as the specification states it: every error of the engine is caught and returned as
  a failure result, and the message for a missing table carries a live list of the names
  of the ingested tables. The message carries the names of the CSV files of the data
  directory, without their extension, whether they were ingested or not: the file
  \<^verbatim>\<open>empty.csv\<close> has no records, so ingestion makes no table for it, and the message
  lists \<^verbatim>\<open>empty\<close>. And the list is read from the directory inside the \<^verbatim>\<open>catch\<close> block:
  when the path of the data directory exists and cannot be listed, a table error of the
  engine ends in the error of that reading, raised by the function.
\<close>

theorem table_list_counterexample:
  "initSqliteFromCsvs no_faults (Some sparse_dir) Map.empty ''orders'' \<noteq> None
   \<and> initSqliteFromCsvs no_faults (Some sparse_dir) Map.empty ''empty'' = None
   \<and> executeSqlite sparse_engine ''SELECT * FROM customers'' None =
       (Failure ''Table not found. Available tables: orders, empty'',
        [''SELECT * FROM customers LIMIT 200''])
   \<and> executeSqlite unlistable_engine ''SELECT * FROM customers'' None =
       (Raised (''ENOTDIR: not a directory, scandir 'data'' @ [CHR 0x27]),
        [''SELECT * FROM customers LIMIT 200''])"
  by code_simp

text \<open>
  C8, amended. Let the engine raise an error on the statement it is given. When the data
  directory can be listed, or the error is no table error, the function returns a failure
  result and raises nothing. When the data directory can be listed and the message of the
  error has \<^verbatim>\<open>no such table\<close> in it, the error of the result is the text for a missing
  table followed by the names, without \<^verbatim>\<open>.csv\<close>, of the entries of the data directory
  that end with \<^verbatim>\<open>.csv\<close>, as the directory is at that moment.
\<close>

theorem engine_errors_caught:
  "data_dir w \<noteq> None \<Longrightarrow>
   sanitize sql (case limit of None \<Rightarrow> 200 | Some l \<Rightarrow> l) = Forward stmt \<Longrightarrow>
   DB_exec w stmt = Throws m \<Longrightarrow>
   (data_dir w = Some (Entries entries) \<or> \<not> table_error m \<longrightarrow>
      (\<exists>e. executeSqlite w sql limit = (Failure e, [stmt]))
      \<and> \<not> executed (fst (executeSqlite w sql limit)))
   \<and> (data_dir w = Some (Entries entries) \<and> m = Some msg \<and> str_includes msg ''no such table'' \<longrightarrow>
        executeSqlite w sql limit =
          (Failure (''Table not found. Available tables: '' @
                    join '', '' (map (\<lambda>f. basename f ''.csv'')
                                  (filter (\<lambda>f. endsWith f ''.csv'') entries))), [stmt]))"
proof -
  assume a: "data_dir w \<noteq> None"
    "sanitize sql (case limit of None \<Rightarrow> 200 | Some l \<Rightarrow> l) = Forward stmt"
    "DB_exec w stmt = Throws m"
  have r: "executeSqlite w sql limit = (caught w m, [stmt])"
    using a by (simp add: executeSqlite_def Let_def)
  have 1: "(\<exists>e. executeSqlite w sql limit = (Failure e, [stmt]))
      \<and> \<not> executed (fst (executeSqlite w sql limit))"
    if h: "data_dir w = Some (Entries entries) \<or> \<not> table_error m"
  proof -
    have "\<exists>e. catch_error w m = Inr e"
      using h catch_error_listed [of w entries m] catch_error_other [of m w] by blast
    then obtain e where "catch_error w m = Inr e" by blast
    then show ?thesis using r by (simp add: caught_def executed_def)
  qed
  have 2: "executeSqlite w sql limit =
          (Failure (''Table not found. Available tables: '' @
                    join '', '' (map (\<lambda>f. basename f ''.csv'')
                                  (filter (\<lambda>f. endsWith f ''.csv'') entries))), [stmt])"
    if "data_dir w = Some (Entries entries)" "m = Some msg" "str_includes msg ''no such table''"
    using r catch_error_table [OF that(1,3)] that(2) by (simp add: caught_def)
  show ?thesis using 1 2 by blast
qed

theorem engine_errors_caught_witness:
  "data_dir orders_engine = Some (Entries [''orders.csv'', ''notes.txt''])
   \<and> sanitize ''SELECT * FROM customers'' 200 = Forward ''SELECT * FROM customers LIMIT 200''
   \<and> DB_exec orders_engine ''SELECT * FROM customers LIMIT 200'' = Throws (Some ''no such table: customers'')
   \<and> str_includes ''no such table: customers'' ''no such table''
   \<and> executeSqlite orders_engine ''SELECT * FROM customers'' None =
       (Failure ''Table not found. Available tables: orders'', [''SELECT * FROM customers LIMIT 200''])
   \<and> \<not> executed (fst (executeSqlite orders_engine ''SELECT * FROM customers'' None))
   \<and> data_dir unlistable_engine \<noteq> None
   \<and> DB_exec (unlistable_engine\<lparr>DB_exec := (\<lambda>stmt. Throws (Some ''near FROM: syntax error''))\<rparr>)
         ''SELECT * FROM customers LIMIT 200'' = Throws (Some ''near FROM: syntax error'')
   \<and> \<not> table_error (Some ''near FROM: syntax error'')
   \<and> \<not> executed (fst (executeSqlite
         (unlistable_engine\<lparr>DB_exec := (\<lambda>stmt. Throws (Some ''near FROM: syntax error''))\<rparr>)
         ''SELECT * FROM customers'' None))"
proof -
  let ?u = "unlistable_engine\<lparr>DB_exec := (\<lambda>stmt. Throws (Some ''near FROM: syntax error''))\<rparr>"
  have h0: "data_dir orders_engine \<noteq> None" by (simp add: orders_engine_def)
  have h1: "data_dir orders_engine = Some (Entries [''orders.csv'', ''notes.txt''])"
    by (simp add: orders_engine_def)
  have h2: "sanitize ''SELECT * FROM customers'' (case None of None \<Rightarrow> 200 | Some l \<Rightarrow> l) =
              Forward ''SELECT * FROM customers LIMIT 200''" by code_simp
  have h3: "DB_exec orders_engine ''SELECT * FROM customers LIMIT 200'' =
              Throws (Some ''no such table: customers'')"
    by (simp add: orders_engine_def)
  have h4: "str_includes ''no such table: customers'' ''no such table''" by code_simp
  have j: "''Table not found. Available tables: '' @
           join '', '' (map (\<lambda>f. basename f ''.csv'')
                          (filter (\<lambda>f. endsWith f ''.csv'') [''orders.csv'', ''notes.txt''])) =
           ''Table not found. Available tables: orders''" by code_simp
  have u0: "data_dir ?u \<noteq> None" by (simp add: unlistable_engine_def)
  have u0': "data_dir unlistable_engine \<noteq> None" by (simp add: unlistable_engine_def)
  have u3: "DB_exec ?u ''SELECT * FROM customers LIMIT 200'' = Throws (Some ''near FROM: syntax error'')"
    by simp
  have u4: "\<not> table_error (Some ''near FROM: syntax error'')" by code_simp
  note A = engine_errors_caught [OF h0 h2 h3, of "[''orders.csv'', ''notes.txt'']" "''no such table: customers''"]
  note B = engine_errors_caught [OF u0 h2 u3, of "[]" "[]"]
  have a1: "executeSqlite orders_engine ''SELECT * FROM customers'' None =
       (Failure ''Table not found. Available tables: orders'', [''SELECT * FROM customers LIMIT 200''])"
    using A h1 h4 j by simp
  have a2: "\<not> executed (fst (executeSqlite orders_engine ''SELECT * FROM customers'' None))"
    using A h1 by blast
  have b2: "\<not> executed (fst (executeSqlite ?u ''SELECT * FROM customers'' None))"
    using B u4 by blast
  show ?thesis using h1 h2 h3 h4 a1 a2 u0' u3 u4 b2 by simp
qed

lemma to_double_not_NaN: "to_double q \<noteq> NaN"
  by (simp add: to_double_def Let_def)

lemma negate_not_NaN: "n \<noteq> NaN \<Longrightarrow> negate n \<noteq> NaN"
  by (cases n) (auto simp: negate_def)

lemma unsigned_literal_not_NaN: "unsigned_literal t = Some n \<Longrightarrow> n \<noteq> NaN"
  by (auto simp: unsigned_literal_def to_double_not_NaN split: if_splits)

lemma literal_not_NaN: "StrNumericLiteral t = Some n \<Longrightarrow> n \<noteq> NaN"
  by (auto simp: StrNumericLiteral_def to_double_not_NaN split: option.splits list.splits if_splits
      dest: unsigned_literal_not_NaN negate_not_NaN)

lemma literal_Nil: "StrNumericLiteral [] = None"
  by (simp add: StrNumericLiteral_def nondecimal_literal_def)

lemma coerce_coerced: "coerce v = coerced v"
proof (cases v)
  case (JStr s)
  show ?thesis
  proof (cases "trim s = []")
    case True
    then show ?thesis
      using JStr by (simp add: coerce_def coerced_def finite_number_def literal_Nil)
  next
    case False
    then have ne: "s \<noteq> []" by (auto simp: trim_def)
    show ?thesis
    proof (cases "StrNumericLiteral (trim s)")
      case None
      then show ?thesis
        using JStr False by (simp add: coerce_def coerced_def finite_number_def Number_def isNaN_def)
    next
      case (Some n)
      then have "n \<noteq> NaN" by (rule literal_not_NaN)
      then show ?thesis
        using JStr False Some ne
        by (simp add: coerce_def coerced_def finite_number_def Number_def isNaN_def Let_def)
    qed
  qed
qed (simp_all add: coerce_def coerced_def)

text \<open>
  C4. The rows of a result are the rows of the engine with every cell converted, and
  the conversion of the source is the one the specification words: a string that is not
  empty and parses fully as a finite number becomes that number, every other value
  (a string that is no number, the empty string, null) is returned as it is. The text
  \<^verbatim>\<open>245.60\<close> becomes the double nearest to 245.6, \<^verbatim>\<open>SP\<close> and null stay.
\<close>

theorem numeric_coercion:
  "data_dir w \<noteq> None \<Longrightarrow>
   sanitize sql (case limit of None \<Rightarrow> 200 | Some l \<Rightarrow> l) = Forward stmt \<Longrightarrow>
   DB_exec w stmt = Rows (r # rs) \<Longrightarrow>
   fst (executeSqlite w sql limit) =
     Success (map (map (\<lambda>(key, v). (key, coerced v))) (r # rs)) (map fst r)
   \<and> (\<forall>v. coerce v = coerced v)
   \<and> coerced (JStr ''245.60'') = JNum (to_double (1228 / 5))
   \<and> coerced (JStr ''SP'') = JStr ''SP''
   \<and> coerced JNull = JNull"
proof -
  assume a: "data_dir w \<noteq> None"
    "sanitize sql (case limit of None \<Rightarrow> 200 | Some l \<Rightarrow> l) = Forward stmt"
    "DB_exec w stmt = Rows (r # rs)"
  have p: "processRow = map (\<lambda>(key, v). (key, coerced v))"
    by (rule ext) (simp add: processRow_def coerce_coerced)
  have "fst (executeSqlite w sql limit) =
     Success (map (map (\<lambda>(key, v). (key, coerced v))) (r # rs)) (map fst r)"
    using a by (auto simp: executeSqlite_def Let_def p)
  moreover have "coerced (JStr ''245.60'') = JNum (to_double (1228 / 5))" by code_simp
  moreover have "coerced (JStr ''SP'') = JStr ''SP''" by code_simp
  moreover have "coerced JNull = JNull" by (simp add: coerced_def)
  ultimately show ?thesis by (simp add: coerce_coerced)
qed

theorem numeric_coercion_witness:
  "data_dir orders_engine \<noteq> None
   \<and> sanitize ''SELECT * FROM [orders] LIMIT 10'' 200 = Forward ''SELECT * FROM [orders] LIMIT 10''
   \<and> fst (executeSqlite orders_engine ''SELECT * FROM [orders] LIMIT 10'' None) =
       Success [[(''order_id'', JStr ''A1''), (''amount'', JNum (Fin (21 / 2)))],
                [(''order_id'', JStr ''A2''), (''amount'', JStr ''bad'')]]
               [''order_id'', ''amount'']
   \<and> coerce (JStr ''245.60'') = JNum (Fin (8641281785017139 / 35184372088832))"
proof -
  have h1: "data_dir orders_engine \<noteq> None" by (simp add: orders_engine_def)
  have h2: "sanitize ''SELECT * FROM [orders] LIMIT 10'' (case None of None \<Rightarrow> 200 | Some l \<Rightarrow> l) =
              Forward ''SELECT * FROM [orders] LIMIT 10''" by code_simp
  have h3: "DB_exec orders_engine ''SELECT * FROM [orders] LIMIT 10'' =
              Rows ([(''order_id'', JStr ''A1''), (''amount'', JStr ''10.5'')] #
                    [[(''order_id'', JStr ''A2''), (''amount'', JStr ''bad'')]])"
    by (simp add: orders_engine_def)
  have c1: "coerced (JStr ''A1'') = JStr ''A1''" by code_simp
  have c2: "coerced (JStr ''10.5'') = JNum (Fin (21 / 2))" by code_simp
  have c3: "coerced (JStr ''A2'') = JStr ''A2''" by code_simp
  have c4: "coerced (JStr ''bad'') = JStr ''bad''" by code_simp
  have c5: "to_double (1228 / 5) = Fin (8641281785017139 / 35184372088832)" by code_simp
  show ?thesis
    using numeric_coercion [OF h1 h2 h3] h1 h2 c1 c2 c3 c4 c5 by simp
qed

section \<open>The matcher and the language of an expression\<close>

lemma star_step:
  "z \<in> set (f x) \<Longrightarrow> length (rest z) < length (rest x) \<Longrightarrow> y \<in> set (star f z)
     \<Longrightarrow> y \<in> set (star f x)"
  by (subst star.simps) auto

lemma lazy_step:
  "z \<in> set (f x) \<Longrightarrow> length (rest z) < length (rest x) \<Longrightarrow> y \<in> set (lazy f z)
     \<Longrightarrow> y \<in> set (lazy f x)"
  by (subst lazy.simps) auto

lemma star_sound:
  "(\<And>x y. y \<in> set (f x) \<Longrightarrow> \<exists>u\<in>A. rest x = u @ rest y) \<Longrightarrow> y \<in> set (star f x)
     \<Longrightarrow> \<exists>ws. set ws \<subseteq> A \<and> rest x = concat ws @ rest y"
proof (induction f x arbitrary: y rule: star.induct)
  case (1 f x)
  from "1.prems"(2) consider "y = x"
    | z where "z \<in> set (f x)" "length (rest z) < length (rest x)" "y \<in> set (star f z)"
    by (subst (asm) star.simps) auto
  then show ?case
  proof cases
    case 1
    then have "set [] \<subseteq> A \<and> rest x = concat [] @ rest y" by simp
    then show ?thesis by blast
  next
    case 2
    then obtain ws where ws: "set ws \<subseteq> A" "rest z = concat ws @ rest y"
      using "1.IH" "1.prems"(1) by force
    obtain u where u: "u \<in> A" "rest x = u @ rest z" using 2(1) "1.prems"(1) by blast
    have "set (u # ws) \<subseteq> A \<and> rest x = concat (u # ws) @ rest y" using ws u by simp
    then show ?thesis by blast
  qed
qed

lemma lazy_sound:
  "(\<And>x y. y \<in> set (f x) \<Longrightarrow> \<exists>u\<in>A. rest x = u @ rest y) \<Longrightarrow> y \<in> set (lazy f x)
     \<Longrightarrow> \<exists>ws. set ws \<subseteq> A \<and> rest x = concat ws @ rest y"
proof (induction f x arbitrary: y rule: lazy.induct)
  case (1 f x)
  from "1.prems"(2) consider "y = x"
    | z where "z \<in> set (f x)" "length (rest z) < length (rest x)" "y \<in> set (lazy f z)"
    by (subst (asm) lazy.simps) auto
  then show ?case
  proof cases
    case 1
    then have "set [] \<subseteq> A \<and> rest x = concat [] @ rest y" by simp
    then show ?thesis by blast
  next
    case 2
    then obtain ws where ws: "set ws \<subseteq> A" "rest z = concat ws @ rest y"
      using "1.IH" "1.prems"(1) by force
    obtain u where u: "u \<in> A" "rest x = u @ rest z" using 2(1) "1.prems"(1) by blast
    have "set (u # ws) \<subseteq> A \<and> rest x = concat (u # ws) @ rest y" using ws u by simp
    then show ?thesis by blast
  qed
qed

text \<open>What the matcher reaches is in the language of the expression.\<close>

lemma ends_sound: "y \<in> set (ends r x) \<Longrightarrow> \<exists>u\<in>lang r. rest x = u @ rest y"
proof (induction r arbitrary: x y)
  case (Cls p)
  then show ?case by (cases "rest x") (auto split: if_splits)
next
  case (RSeq a b)
  then obtain z where z: "z \<in> set (ends a x)" "y \<in> set (ends b z)" by auto
  obtain u where u: "u \<in> lang a" "rest x = u @ rest z" using RSeq.IH(1) z(1) by blast
  obtain v where v: "v \<in> lang b" "rest z = v @ rest y" using RSeq.IH(2) z(2) by blast
  have "u @ v \<in> lang (RSeq a b) \<and> rest x = (u @ v) @ rest y" using u v by auto
  then show ?case by blast
next
  case (RAlt a b)
  then have "y \<in> set (ends a x) \<or> y \<in> set (ends b x)" by simp
  then show ?case using RAlt.IH by (metis UnCI lang.simps(4))
next
  case (RStar a)
  have "\<exists>ws. set ws \<subseteq> lang a \<and> rest x = concat ws @ rest y"
    by (rule star_sound [of "ends a"]) (use RStar in auto)
  then show ?case by auto
next
  case (RLazy a)
  have "\<exists>ws. set ws \<subseteq> lang a \<and> rest x = concat ws @ rest y"
    by (rule lazy_sound [of "ends a"]) (use RLazy in auto)
  then show ?case by auto
next
  case (Grp a)
  then obtain y' where "y' \<in> set (ends a x)" "rest y = rest y'" by auto
  then show ?case using Grp.IH by force
qed (auto split: if_splits)

lemma star_complete:
  "(\<And>x u v. u \<in> A \<Longrightarrow> rest x = u @ v \<Longrightarrow> \<exists>y\<in>set (f x). rest y = v) \<Longrightarrow>
   set ws \<subseteq> A \<Longrightarrow> rest x = concat ws @ v \<Longrightarrow> \<exists>y\<in>set (star f x). rest y = v"
proof (induction ws arbitrary: x)
  case Nil
  then show ?case using star_self [of x f] by auto
next
  case (Cons w ws)
  show ?case
  proof (cases "w = []")
    case True
    then show ?thesis using Cons by simp
  next
    case False
    have "rest x = w @ (concat ws @ v)" using Cons.prems(3) by simp
    then obtain z where z: "z \<in> set (f x)" "rest z = concat ws @ v"
      using Cons.prems(1) [of w x "concat ws @ v"] Cons.prems(2) by auto
    then obtain y where y: "y \<in> set (star f z)" "rest y = v"
      using Cons.IH [of z] Cons.prems(1,2) by auto
    have "length (rest z) < length (rest x)" using z(2) Cons.prems(3) False by simp
    then have "y \<in> set (star f x)" using z(1) y(1) star_step by blast
    then show ?thesis using y(2) by blast
  qed
qed

lemma lazy_complete:
  "(\<And>x u v. u \<in> A \<Longrightarrow> rest x = u @ v \<Longrightarrow> \<exists>y\<in>set (f x). rest y = v) \<Longrightarrow>
   set ws \<subseteq> A \<Longrightarrow> rest x = concat ws @ v \<Longrightarrow> \<exists>y\<in>set (lazy f x). rest y = v"
proof (induction ws arbitrary: x)
  case Nil
  then show ?case using lazy_self [of x f] by auto
next
  case (Cons w ws)
  show ?case
  proof (cases "w = []")
    case True
    then show ?thesis using Cons by simp
  next
    case False
    have "rest x = w @ (concat ws @ v)" using Cons.prems(3) by simp
    then obtain z where z: "z \<in> set (f x)" "rest z = concat ws @ v"
      using Cons.prems(1) [of w x "concat ws @ v"] Cons.prems(2) by auto
    then obtain y where y: "y \<in> set (lazy f z)" "rest y = v"
      using Cons.IH [of z] Cons.prems(1,2) by auto
    have "length (rest z) < length (rest x)" using z(2) Cons.prems(3) False by simp
    then have "y \<in> set (lazy f x)" using z(1) y(1) lazy_step by blast
    then show ?thesis using y(2) by blast
  qed
qed

text \<open>Every word of the language of an expression without anchors is matched.\<close>

lemma ends_complete:
  "plain r \<Longrightarrow> u \<in> lang r \<Longrightarrow> rest x = u @ v \<Longrightarrow> \<exists>y\<in>set (ends r x). rest y = v"
proof (induction r arbitrary: x u v)
  case (Cls p)
  then show ?case by (cases "rest x") auto
next
  case (RSeq a b)
  then obtain u1 u2 where u: "u = u1 @ u2" "u1 \<in> lang a" "u2 \<in> lang b" by auto
  then obtain z where z: "z \<in> set (ends a x)" "rest z = u2 @ v"
    using RSeq.IH(1) [of u1 x "u2 @ v"] RSeq.prems by auto
  then obtain y where "y \<in> set (ends b z)" "rest y = v"
    using RSeq.IH(2) [of u2 z v] RSeq.prems u by auto
  then show ?case using z(1) by auto
next
  case (RAlt a b)
  then show ?case by fastforce
next
  case (RStar a)
  then obtain ws where ws: "set ws \<subseteq> lang a" "u = concat ws" by auto
  have "\<exists>y\<in>set (star (ends a) x). rest y = v"
    by (rule star_complete [of "lang a" "ends a" ws]) (use RStar ws in auto)
  then show ?case by simp
next
  case (RLazy a)
  then obtain ws where ws: "set ws \<subseteq> lang a" "u = concat ws" by auto
  have "\<exists>y\<in>set (lazy (ends a) x). rest y = v"
    by (rule lazy_complete [of "lang a" "ends a" ws]) (use RLazy ws in auto)
  then show ?case by simp
next
  case (Grp a)
  then obtain y where "y \<in> set (ends a x)" "rest y = v" by fastforce
  then show ?case by force
qed auto

lemma lang_seqI: "u \<in> lang a \<Longrightarrow> v \<in> lang b \<Longrightarrow> u @ v \<in> lang (RSeq a b)"
  by auto

lemma lang_seqE:
  "w \<in> lang (RSeq a b) \<Longrightarrow> (\<And>u v. w = u @ v \<Longrightarrow> u \<in> lang a \<Longrightarrow> v \<in> lang b \<Longrightarrow> P) \<Longrightarrow> P"
  by auto

lemma lang_star_Cls: "lang (RStar (Cls p)) = {u. list_all p u}"
proof (rule set_eqI, rule iffI)
  fix u assume "u \<in> lang (RStar (Cls p))"
  then obtain ws where ws: "set ws \<subseteq> {[c] | c. p c}" "u = concat ws" by auto
  have "list_all p (concat ws)" using ws(1)
    by (induction ws) auto
  then show "u \<in> {u. list_all p u}" using ws(2) by simp
next
  fix u assume "u \<in> {u. list_all p u}"
  then have "set (map (\<lambda>c. [c]) u) \<subseteq> {[c] | c. p c} \<and> u = concat (map (\<lambda>c. [c]) u)"
    by (induction u) auto
  then show "u \<in> lang (RStar (Cls p))" unfolding lang.simps by blast
qed

lemma lang_plus_Cls: "lang (RPlus (Cls p)) = {u. u \<noteq> [] \<and> list_all p u}"
proof (rule set_eqI, rule iffI)
  fix u assume "u \<in> lang (RPlus (Cls p))"
  then obtain a v where "u = a @ v" "a \<in> lang (Cls p)" "v \<in> lang (RStar (Cls p))"
    unfolding RPlus_def by (rule lang_seqE)
  then show "u \<in> {u. u \<noteq> [] \<and> list_all p u}" unfolding lang_star_Cls by auto
next
  fix u assume "u \<in> {u. u \<noteq> [] \<and> list_all p u}"
  then obtain c v where u: "u = [c] @ v" "p c" "list_all p v" by (cases u) auto
  have "[c] \<in> lang (Cls p)" using u(2) by simp
  moreover have "v \<in> lang (RStar (Cls p))" using u(3) unfolding lang_star_Cls by simp
  ultimately show "u \<in> lang (RPlus (Cls p))" unfolding RPlus_def u(1) by (rule lang_seqI)
qed

lemma lang_opt: "lang (ROpt a) = insert [] (lang a)"
  by (auto simp: ROpt_def)

lemma lang_chr: "lang (chr c) = {[c]}"
  by (auto simp: chr_def)

lemma lang_istr: "lang (istr w) = {m. map upper m = map upper w}"
proof (induction w)
  case Nil
  then show ?case by (simp add: istr_def)
next
  case (Cons c w)
  have step: "istr (c # w) = RSeq (ichr c) (istr w)" by (simp add: istr_def)
  show ?case
  proof (rule set_eqI, rule iffI)
    fix m assume "m \<in> lang (istr (c # w))"
    then show "m \<in> {m. map upper m = map upper (c # w)}"
      using Cons by (auto simp: step ichr_def)
  next
    fix m assume "m \<in> {m. map upper m = map upper (c # w)}"
    then obtain d m' where m: "m = [d] @ m'" "upper d = upper c" "map upper m' = map upper w"
      by (cases m) auto
    have "[d] \<in> lang (ichr c)" using m(2) by (simp add: ichr_def)
    moreover have "m' \<in> lang (istr w)" using m(3) Cons by simp
    ultimately show "m \<in> lang (istr (c # w))" unfolding step m(1) by (rule lang_seqI)
  qed
qed

lemma plain_istr: "plain (istr w)"
  by (induction w) (auto simp: istr_def ichr_def)

text \<open>An anchor at the start lets a search match at the start only.\<close>

lemma test_Bol:
  "re_test (RSeq Bol r) s \<longleftrightarrow> ends r (MState None s None) \<noteq> []"
proof -
  have "ends (RSeq Bol r) (adv (MState None s None) k) = []" if "0 < k" for k
    using that by (simp add: adv_def)
  then have "(\<exists>k\<le>length s. ends (RSeq Bol r) (adv (MState None s None) k) \<noteq> [])
               \<longleftrightarrow> ends (RSeq Bol r) (adv (MState None s None) 0) \<noteq> []"
    by (metis le0 neq0_conv)
  then show ?thesis
    unfolding re_test_def re_exec_def search_from_None by simp
qed

lemma ends_to_Eol:
  "ends (RSeq a Eol) x \<noteq> [] \<longleftrightarrow> (\<exists>y\<in>set (ends a x). rest y = [])"
  by auto

lemma matches_all:
  "plain a \<Longrightarrow> (\<exists>y\<in>set (ends a x). rest y = []) \<longleftrightarrow> rest x \<in> lang a"
proof
  assume "\<exists>y\<in>set (ends a x). rest y = []"
  then show "rest x \<in> lang a" using ends_sound [of _ a x] by force
next
  assume "plain a" "rest x \<in> lang a"
  then show "\<exists>y\<in>set (ends a x). rest y = []"
    using ends_complete [of a "rest x" x "[]"] by simp
qed

lemma nonempty_set: "xs \<noteq> [] \<longleftrightarrow> set xs \<noteq> {}"
  by simp

lemma incomplete_lang:
  "re_test incompletePattern b \<longleftrightarrow>
   b \<in> lang (RSeq (ROpt (chr CHR ''['')) (RSeq (RPlus (Cls is_word))
       (RSeq (ROpt (chr CHR '']'')) (RSeq (RStar (Cls is_space))
         (RSeq (ROpt (Grp (RAlt (istr ''AND'') (istr ''OR''))))
           (RStar (Cls is_space)))))))"
  (is "_ \<longleftrightarrow> b \<in> lang ?core")
proof -
  define A1 where "A1 = ROpt (chr CHR ''['')"
  define A2 where "A2 = RPlus (Cls is_word)"
  define A3 where "A3 = ROpt (chr CHR '']'')"
  define A4 where "A4 = RStar (Cls is_space)"
  define A5 where "A5 = ROpt (Grp (RAlt (istr ''AND'') (istr ''OR'')))"
  define core where "core = RSeq A1 (RSeq A2 (RSeq A3 (RSeq A4 (RSeq A5 A4))))"
  have pl: "plain core"
    by (simp add: core_def A1_def A2_def A3_def A4_def A5_def ROpt_def RPlus_def chr_def plain_istr)
  have ip: "incompletePattern = RSeq Bol (RSeq A1 (RSeq A2 (RSeq A3 (RSeq A4 (RSeq A5 (RSeq A4 Eol))))))"
    by (simp add: incompletePattern_def A1_def A2_def A3_def A4_def A5_def)
  have "set (ends (RSeq A1 (RSeq A2 (RSeq A3 (RSeq A4 (RSeq A5 (RSeq A4 Eol)))))) x) =
        set (ends (RSeq core Eol) x)" for x
    unfolding core_def by auto
  then have "ends (RSeq A1 (RSeq A2 (RSeq A3 (RSeq A4 (RSeq A5 (RSeq A4 Eol)))))) x \<noteq> [] \<longleftrightarrow>
        ends (RSeq core Eol) x \<noteq> []" for x
    unfolding nonempty_set by simp
  then have "re_test incompletePattern b \<longleftrightarrow> ends (RSeq core Eol) (MState None b None) \<noteq> []"
    unfolding ip test_Bol by blast
  also have "\<dots> \<longleftrightarrow> b \<in> lang core"
    unfolding ends_to_Eol using matches_all [OF pl, of "MState None b None"] by simp
  finally show ?thesis
    by (simp only: core_def A1_def A2_def A3_def A4_def A5_def)
qed

lemma upper_letters:
  "upper CHR ''A'' = CHR ''A''" "upper CHR ''N'' = CHR ''N''" "upper CHR ''D'' = CHR ''D''"
  "upper CHR ''O'' = CHR ''O''" "upper CHR ''R'' = CHR ''R''"
  by (simp_all add: upper_def lower_chars_def upper_chars_def)

lemma upper_AND: "map upper ''AND'' = ''AND''"
  by (simp add: upper_letters)

lemma upper_OR: "map upper ''OR'' = ''OR''"
  by (simp add: upper_letters)

lemma incomplete_sound: "re_test incompletePattern b \<Longrightarrow> single_identifier b"
proof -
  assume "re_test incompletePattern b"
  then have m: "b \<in> lang (RSeq (ROpt (chr CHR ''['')) (RSeq (RPlus (Cls is_word))
       (RSeq (ROpt (chr CHR '']'')) (RSeq (RStar (Cls is_space))
         (RSeq (ROpt (Grp (RAlt (istr ''AND'') (istr ''OR''))))
           (RStar (Cls is_space)))))))"
    by (simp only: incomplete_lang)
  from m obtain lb r1 where 1: "b = lb @ r1" "lb \<in> lang (ROpt (chr CHR ''[''))"
    and m1: "r1 \<in> lang (RSeq (RPlus (Cls is_word))
       (RSeq (ROpt (chr CHR '']'')) (RSeq (RStar (Cls is_space))
         (RSeq (ROpt (Grp (RAlt (istr ''AND'') (istr ''OR''))))
           (RStar (Cls is_space))))))"
    by (rule lang_seqE)
  from m1 obtain ident r2 where 2: "r1 = ident @ r2" "ident \<in> lang (RPlus (Cls is_word))"
    and m2: "r2 \<in> lang (RSeq (ROpt (chr CHR '']'')) (RSeq (RStar (Cls is_space))
         (RSeq (ROpt (Grp (RAlt (istr ''AND'') (istr ''OR''))))
           (RStar (Cls is_space)))))"
    by (rule lang_seqE)
  from m2 obtain rb r3 where 3: "r2 = rb @ r3" "rb \<in> lang (ROpt (chr CHR '']''))"
    and m3: "r3 \<in> lang (RSeq (RStar (Cls is_space))
         (RSeq (ROpt (Grp (RAlt (istr ''AND'') (istr ''OR''))))
           (RStar (Cls is_space))))"
    by (rule lang_seqE)
  from m3 obtain sp1 r4 where 4: "r3 = sp1 @ r4" "sp1 \<in> lang (RStar (Cls is_space))"
    and m4: "r4 \<in> lang (RSeq (ROpt (Grp (RAlt (istr ''AND'') (istr ''OR''))))
           (RStar (Cls is_space)))"
    by (rule lang_seqE)
  from m4 obtain conn sp2 where 5: "r4 = conn @ sp2"
    "conn \<in> lang (ROpt (Grp (RAlt (istr ''AND'') (istr ''OR''))))"
    "sp2 \<in> lang (RStar (Cls is_space))"
    by (rule lang_seqE)
  have "b = lb @ ident @ rb @ sp1 @ conn @ sp2" using 1 2 3 4 5 by simp
  moreover have "lb = [] \<or> lb = ''[''" using 1(2) by (simp add: lang_opt lang_chr)
  moreover have "ident \<noteq> [] \<and> list_all is_word ident" using 2(2) by (simp add: lang_plus_Cls)
  moreover have "rb = [] \<or> rb = '']''" using 3(2) by (simp add: lang_opt lang_chr)
  moreover have "list_all is_space sp1" using 4(2) unfolding lang_star_Cls by simp
  moreover have "conn = [] \<or> map upper conn = ''AND'' \<or> map upper conn = ''OR''"
    using 5(2) unfolding lang_opt lang.simps lang_istr upper_AND upper_OR by blast
  moreover have "list_all is_space sp2" using 5(3) unfolding lang_star_Cls by simp
  ultimately have "b = lb @ ident @ rb @ sp1 @ conn @ sp2
        \<and> (lb = [] \<or> lb = ''['') \<and> ident \<noteq> [] \<and> list_all is_word ident
        \<and> (rb = [] \<or> rb = '']'') \<and> list_all is_space sp1
        \<and> (conn = [] \<or> map upper conn = ''AND'' \<or> map upper conn = ''OR'')
        \<and> list_all is_space sp2" by blast
  then show ?thesis unfolding single_identifier_def
    by (intro exI [of _ lb] exI [of _ ident] exI [of _ rb] exI [of _ sp1] exI [of _ conn]
        exI [of _ sp2])
qed

lemma incomplete_complete: "single_identifier b \<Longrightarrow> re_test incompletePattern b"
proof -
  assume "single_identifier b"
  then obtain lb ident rb sp1 conn sp2 where b: "b = lb @ ident @ rb @ sp1 @ conn @ sp2"
    and c: "lb = [] \<or> lb = ''[''" "ident \<noteq> []" "list_all is_word ident"
      "rb = [] \<or> rb = '']''" "list_all is_space sp1"
      "conn = [] \<or> map upper conn = ''AND'' \<or> map upper conn = ''OR''"
      "list_all is_space sp2"
    unfolding single_identifier_def by (elim exE conjE) (rule that)
  have 1: "lb \<in> lang (ROpt (chr CHR ''[''))" using c(1) by (simp add: lang_opt lang_chr)
  have 2: "ident \<in> lang (RPlus (Cls is_word))" using c(2,3) by (simp add: lang_plus_Cls)
  have 3: "rb \<in> lang (ROpt (chr CHR '']''))" using c(4) by (simp add: lang_opt lang_chr)
  have 4: "sp1 \<in> lang (RStar (Cls is_space))" using c(5) unfolding lang_star_Cls by simp
  have 5: "conn \<in> lang (ROpt (Grp (RAlt (istr ''AND'') (istr ''OR''))))"
    using c(6) unfolding lang_opt lang.simps lang_istr upper_AND upper_OR by blast
  have 6: "sp2 \<in> lang (RStar (Cls is_space))" using c(7) unfolding lang_star_Cls by simp
  have "lb @ ident @ rb @ sp1 @ conn @ sp2 \<in> lang (RSeq (ROpt (chr CHR ''['')) (RSeq (RPlus (Cls is_word))
       (RSeq (ROpt (chr CHR '']'')) (RSeq (RStar (Cls is_space))
         (RSeq (ROpt (Grp (RAlt (istr ''AND'') (istr ''OR''))))
           (RStar (Cls is_space)))))))"
    by (intro lang_seqI 1 2 3 4 5 6)
  then show ?thesis
    unfolding incomplete_lang b .
qed

text \<open>
  The expression for an incomplete clause matches exactly the bodies that are a single
  identifier, optionally followed by a bare connective.
\<close>

lemma incomplete_iff: "re_test incompletePattern b \<longleftrightarrow> single_identifier b"
  using incomplete_sound incomplete_complete by blast

section \<open>Extraction\<close>

lemma adv_shift: "adv (MState p (c # cs) cp) (Suc k) = adv (MState (Some c) cs cp) k"
  by (cases k) (auto simp: adv_def)

lemma adv_1: "rest x = c # cs \<Longrightarrow> adv x (Suc 0) = MState (Some c) cs (cap x)"
  by (simp add: adv_def)

lemma adv_Suc: "rest x = c # cs \<Longrightarrow> adv (MState (Some c) cs (cap x)) k = adv x (Suc k)"
  using adv_adv [of "Suc 0" x k] by (simp add: adv_1)

text \<open>The order of backtracking: a greedy star tries the longest run first.\<close>

lemma star_Cls_hd:
  "\<exists>ys. star (ends (Cls p)) x = adv x (length (takeWhile p (rest x))) # ys"
proof (induction "rest x" arbitrary: x)
  case Nil
  then have "ends (Cls p) x = []" by (simp add: Nil [symmetric])
  then have "star (ends (Cls p)) x = [x]" by (subst star.simps) simp
  then show ?case using Nil [symmetric] by (simp del: ends.simps)
next
  case (Cons c cs)
  note r = Cons(2) [symmetric]
  show ?case
  proof (cases "p c")
    case False
    then have "ends (Cls p) x = []" using r by simp
    then have "star (ends (Cls p)) x = [x]" by (subst star.simps) simp
    then show ?thesis using r False by simp
  next
    case True
    define x1 where "x1 = MState (Some c) cs (cap x)"
    have e: "ends (Cls p) x = [x1]" using r True by (simp add: x1_def)
    have s: "star (ends (Cls p)) x = star (ends (Cls p)) x1 @ [x]"
      by (subst star.simps) (simp add: e r x1_def del: ends.simps)
    obtain ys where ys: "star (ends (Cls p)) x1 = adv x1 (length (takeWhile p (rest x1))) # ys"
      using Cons(1) [of x1] by (auto simp: x1_def)
    have "adv x1 (length (takeWhile p cs)) = adv x (Suc (length (takeWhile p cs)))"
      unfolding x1_def using r by (rule adv_Suc)
    then show ?thesis using s ys r True by (simp add: x1_def)
  qed
qed

text \<open>A lazy star over any character tries every length, the shortest first.\<close>

lemma lazy_any: "lazy (ends (Cls any_char)) x = map (adv x) [0..<Suc (length (rest x))]"
proof (induction "rest x" arbitrary: x)
  case Nil
  then have "ends (Cls any_char) x = []" by (simp add: Nil [symmetric])
  then have "lazy (ends (Cls any_char)) x = [x]" by (subst lazy.simps) simp
  then show ?case using Nil [symmetric] by (simp del: ends.simps)
next
  case (Cons c cs)
  note r = Cons(2) [symmetric]
  define x1 where "x1 = MState (Some c) cs (cap x)"
  have e: "ends (Cls any_char) x = [x1]" using r by (simp add: x1_def any_char_def)
  have s: "lazy (ends (Cls any_char)) x = x # lazy (ends (Cls any_char)) x1"
    by (subst lazy.simps) (simp add: e r x1_def del: ends.simps)
  have "lazy (ends (Cls any_char)) x1 = map (adv x1) [0..<Suc (length cs)]"
    using Cons(1) [of x1] by (simp add: x1_def)
  also have "\<dots> = map (\<lambda>k. adv x (Suc k)) [0..<Suc (length cs)]"
    unfolding x1_def using adv_Suc [OF r] by simp
  also have "\<dots> = map (adv x) (map Suc [0..<Suc (length cs)])" by (simp add: comp_def)
  also have "\<dots> = map (adv x) [Suc 0..<Suc (Suc (length cs))]" by (simp only: map_Suc_upt)
  finally have "lazy (ends (Cls any_char)) x = adv x 0 # map (adv x) [Suc 0..<Suc (Suc (length cs))]"
    using s by simp
  also have "\<dots> = map (adv x) [0..<Suc (Suc (length cs))]"
    by (simp add: upt_conv_Cons del: upt_Suc)
  finally show ?case using r by simp
qed

lemma search_from_first:
  "n \<le> length s \<Longrightarrow> (\<And>k. k < n \<Longrightarrow> ends r (adv (MState p s None) k) = []) \<Longrightarrow>
   ends r (adv (MState p s None) n) = y # ys \<Longrightarrow> search_from r p s i = Some (i + n, y)"
proof (induction s arbitrary: p i n)
  case Nil
  then show ?case by simp
next
  case (Cons c cs)
  show ?case
  proof (cases n)
    case 0
    then show ?thesis using Cons.prems(3) by simp
  next
    case (Suc n')
    have z: "ends r (MState p (c # cs) None) = []" using Cons.prems(2) [of 0] Suc by simp
    have "search_from r (Some c) cs (Suc i) = Some (Suc i + n', y)"
    proof (rule Cons.IH)
      show "n' \<le> length cs" using Cons.prems(1) Suc by simp
      show "ends r (adv (MState (Some c) cs None) k) = []" if "k < n'" for k
        using Cons.prems(2) [of "Suc k"] that Suc by (simp add: adv_shift)
      show "ends r (adv (MState (Some c) cs None) n') = y # ys"
        using Cons.prems(3) Suc by (simp add: adv_shift)
    qed
    then show ?thesis using z Suc by simp
  qed
qed

lemma ends_str:
  "ends (str w) x = (if starts_with (rest x) w then [adv x (length w)] else [])"
proof (induction w arbitrary: x)
  case Nil
  then show ?case by (simp add: str_def)
next
  case (Cons c w)
  have step: "str (c # w) = RSeq (chr c) (str w)" by (simp add: str_def)
  show ?case
  proof (cases "rest x")
    case Nil
    then show ?thesis by (simp add: step chr_def)
  next
    case (Cons d t)
    have a2: "adv (MState (Some d) t (cap x)) (length w) = adv x (Suc (length w))"
      using Cons by (rule adv_Suc)
    show ?thesis using Cons Cons.IH [of "MState (Some d) t (cap x)"] a2
      by (auto simp: step chr_def)
  qed
qed

lemma concat_map_skip:
  "(\<And>x. x \<in> set xs \<Longrightarrow> f x = []) \<Longrightarrow> concat (map f (xs @ ys)) = concat (map f ys)"
  by (induction xs) auto

lemma starts_with_ci_append: "starts_with_ci m w \<Longrightarrow> starts_with_ci (m @ r) w"
  by (induction m w rule: starts_with_ci.induct) auto

lemma takeWhile_run:
  "list_all p ws \<Longrightarrow> body \<noteq> [] \<Longrightarrow> \<not> p (hd body) \<Longrightarrow> takeWhile p (ws @ body @ tail) = ws"
  by (cases body) (auto simp: list_all_iff takeWhile_append2)

lemma trim_keeps: "body \<noteq> [] \<Longrightarrow> \<not> is_space (hd body) \<Longrightarrow> trim body \<noteq> []"
proof -
  assume a: "body \<noteq> []" "\<not> is_space (hd body)"
  then have d: "dropWhile is_space body = body" by (cases body) auto
  have "hd body \<in> set (rev body)" using a(1) by simp
  then have "dropWhile is_space (rev body) \<noteq> []" using a(2)
    by (metis dropWhile_eq_Nil_conv)
  then show ?thesis by (simp add: trim_def d)
qed

text \<open>
  The first matcher of \<^verbatim>\<open>extractSql\<close>: where the first marker is, what follows it up to
  the first empty line (or the end) is group 1.
\<close>

lemma sql_prefix_capture:
  assumes t: "text = pre @ m @ ws @ body @ tail"
    and m: "length m = 4" "starts_with_ci m ''SQL:''"
    and first: "list_all (\<lambda>k. \<not> starts_with_ci (drop k text) ''SQL:'') [0..<length pre]"
    and ws: "list_all is_space ws"
    and body: "body \<noteq> []" "\<not> is_space (hd body)"
    and inner: "list_all (\<lambda>j. \<not> starts_with (drop j (body @ tail)) [NL, NL]) [0..<length body]"
    and tail: "tail = [] \<or> starts_with tail [NL, NL]"
  shows "match1 re_sql_prefix text = Some body"
proof -
  define T where "T = RAlt (str [NL, NL]) Eol"
  define R3 where "R3 = RSeq (Grp (RLazy (Cls any_char))) T"
  define R2 where "R2 = RSeq (RStar (Cls is_space)) R3"
  have re: "re_sql_prefix = RSeq (istr ''SQL:'') R2"
    by (simp add: re_sql_prefix_def R2_def R3_def T_def)
  define x0 where "x0 = MState None text None"
  define xn where "xn = adv x0 (length pre)"
  define x1 where "x1 = adv xn (length ''SQL:'')"
  define x2 where "x2 = adv x1 (length ws)"
  have rn: "rest xn = m @ ws @ body @ tail" by (simp add: xn_def x0_def t)
  have r1: "rest x1 = ws @ body @ tail" using m(1) by (simp add: x1_def rn)
  have r2: "rest x2 = body @ tail" by (simp add: x2_def r1)
  have c2: "cap x2 = None" by (simp add: x2_def x1_def xn_def x0_def)
  \<comment> \<open>no match before the marker\<close>
  have A: "ends re_sql_prefix (adv x0 k) = []" if "k < length pre" for k
  proof -
    have "\<not> starts_with_ci (drop k text) ''SQL:''"
      using first that by (simp add: list_all_iff)
    then show ?thesis by (simp add: re ends_istr x0_def)
  qed
  \<comment> \<open>the marker, then the white space, all of it first\<close>
  have B: "ends re_sql_prefix xn = ends R2 x1"
    using starts_with_ci_append [OF m(2), of "ws @ body @ tail"] m(1)
    by (simp add: re ends_istr rn x1_def)
  obtain ys where C: "star (ends (Cls is_space)) x1 = x2 # ys"
    using star_Cls_hd [of is_space x1] takeWhile_run [OF ws body, of tail]
    by (auto simp: r1 x2_def)
  \<comment> \<open>the group, the shortest first\<close>
  define G where "G = (\<lambda>y. MState (prev y) (rest y)
                        (Some (take (length (rest x2) - length (rest y)) (rest x2))))"
  have lz: "ends (Grp (RLazy (Cls any_char))) x2 =
              map (\<lambda>j. G (adv x2 j)) [0..<Suc (length (body @ tail))]"
    by (simp add: lazy_any G_def r2 comp_def del: ends.simps(1) upt_Suc)
  have split: "[0..<Suc (length (body @ tail))] =
                 [0..<length body] @ length body # [Suc (length body)..<Suc (length (body @ tail))]"
  proof -
    have "[0..<Suc (length (body @ tail))] =
            [0..<length body] @ [length body..<Suc (length (body @ tail))]"
      using upt_add_eq_append [of 0 "length body" "Suc (length tail)"] by simp
    also have "[length body..<Suc (length (body @ tail))] =
                 length body # [Suc (length body)..<Suc (length (body @ tail))]"
      by (rule upt_conv_Cons) simp
    finally show ?thesis .
  qed
  have early: "ends T (G (adv x2 j)) = []" if "j < length body" for j
  proof -
    have "\<not> starts_with (drop j (body @ tail)) [NL, NL]"
      using inner that by (simp add: list_all_iff)
    moreover have "drop j (body @ tail) \<noteq> []" using that by simp
    ultimately show ?thesis by (simp add: T_def G_def ends_str r2)
  qed
  have at: "\<exists>y. ends T (G (adv x2 (length body))) = [y] \<and> cap y = Some body"
  proof (cases "tail = []")
    case True
    then show ?thesis by (simp add: T_def G_def ends_str r2)
  next
    case False
    then have "starts_with tail [NL, NL]" using tail by simp
    then show ?thesis using False by (simp add: T_def G_def ends_str r2)
  qed
  then obtain y where y: "ends T (G (adv x2 (length body))) = [y]" "cap y = Some body" by blast
  have D: "ends R3 x2 = y # concat (map (ends T)
              (map (\<lambda>j. G (adv x2 j)) [Suc (length body)..<Suc (length (body @ tail))]))"
  proof -
    have "ends R3 x2 = concat (map (ends T) (map (\<lambda>j. G (adv x2 j)) [0..<length body] @
             map (\<lambda>j. G (adv x2 j)) (length body # [Suc (length body)..<Suc (length (body @ tail))])))"
      unfolding R3_def ends.simps(3) lz split by simp
    also have "\<dots> = concat (map (ends T)
             (map (\<lambda>j. G (adv x2 j)) (length body # [Suc (length body)..<Suc (length (body @ tail))])))"
      by (rule concat_map_skip) (use early in auto)
    finally show ?thesis using y(1) by simp
  qed
  have E: "ends R2 x1 = y # (concat (map (ends T)
              (map (\<lambda>j. G (adv x2 j)) [Suc (length body)..<Suc (length (body @ tail))]))
              @ concat (map (ends R3) ys))"
    unfolding R2_def ends.simps(3) ends.simps(5) C using D by simp
  have "search_from re_sql_prefix None text 0 = Some (0 + length pre, y)"
  proof (rule search_from_first)
    show "length pre \<le> length text" by (simp add: t)
    show "ends re_sql_prefix (adv (MState None text None) k) = []" if "k < length pre" for k
      using A [OF that] by (simp add: x0_def)
    show "ends re_sql_prefix (adv (MState None text None) (length pre)) = y # (concat (map (ends T)
              (map (\<lambda>j. G (adv x2 j)) [Suc (length body)..<Suc (length (body @ tail))]))
              @ concat (map (ends R3) ys))"
      using B E by (simp add: xn_def x0_def)
  qed
  then show ?thesis by (simp add: match1_def re_exec_def y(2))
qed

lemma extract_by_prefix:
  "match1 re_sql_prefix text = Some body \<Longrightarrow> trim body \<noteq> [] \<Longrightarrow>
   extractSql text = Some (trim body)"
proof -
  assume a: "match1 re_sql_prefix text = Some body" "trim body \<noteq> []"
  have "match1 re_sql_prefix [] = None" by code_simp
  then have "text \<noteq> []" using a(1) by auto
  then show ?thesis using a by (simp add: extractSql_def by_prefix_def Let_def)
qed

text \<open>
  When nothing but white space follows the first marker, group 1 of the first matcher is
  empty and the result is that of the matchers behind it.
\<close>

lemma sql_prefix_blank:
  assumes t: "text = pre @ m @ ws"
    and m: "length m = 4" "starts_with_ci m ''SQL:''"
    and first: "list_all (\<lambda>k. \<not> starts_with_ci (drop k text) ''SQL:'') [0..<length pre]"
    and ws: "list_all is_space ws"
  shows "match1 re_sql_prefix text = Some []"
proof -
  define T where "T = RAlt (str [NL, NL]) Eol"
  define R3 where "R3 = RSeq (Grp (RLazy (Cls any_char))) T"
  define R2 where "R2 = RSeq (RStar (Cls is_space)) R3"
  have re: "re_sql_prefix = RSeq (istr ''SQL:'') R2"
    by (simp add: re_sql_prefix_def R2_def R3_def T_def)
  define x0 where "x0 = MState None text None"
  define xn where "xn = adv x0 (length pre)"
  define x1 where "x1 = adv xn (length ''SQL:'')"
  define x2 where "x2 = adv x1 (length ws)"
  have rn: "rest xn = m @ ws" by (simp add: xn_def x0_def t)
  have r1: "rest x1 = ws" using m(1) by (simp add: x1_def rn)
  have r2: "rest x2 = []" by (simp add: x2_def r1)
  have A: "ends re_sql_prefix (adv x0 k) = []" if "k < length pre" for k
  proof -
    have "\<not> starts_with_ci (drop k text) ''SQL:''"
      using first that by (simp add: list_all_iff)
    then show ?thesis by (simp add: re ends_istr x0_def)
  qed
  have B: "ends re_sql_prefix xn = ends R2 x1"
    using starts_with_ci_append [OF m(2), of ws] m(1)
    by (simp add: re ends_istr rn x1_def)
  have tw: "takeWhile is_space ws = ws" using ws by (simp add: list_all_iff)
  obtain ys where "star (ends (Cls is_space)) x1 = adv x1 (length (takeWhile is_space (rest x1))) # ys"
    using star_Cls_hd [of is_space x1] by blast
  then have C: "star (ends (Cls is_space)) x1 = x2 # ys" by (simp only: r1 tw x2_def)
  define y where "y = MState (prev x2) [] (Some [])"
  have lz: "ends (Grp (RLazy (Cls any_char))) x2 = [y]"
    by (simp add: lazy_any r2 y_def del: ends.simps(1))
  have e: "ends T y = [y]" by (simp add: T_def ends_str y_def)
  have D: "ends R3 x2 = [y]" unfolding R3_def ends.simps(3) lz using e by simp
  have E: "ends R2 x1 = y # concat (map (ends R3) ys)"
    unfolding R2_def ends.simps(3) ends.simps(5) C using D by simp
  have "search_from re_sql_prefix None text 0 = Some (0 + length pre, y)"
  proof (rule search_from_first)
    show "length pre \<le> length text" by (simp add: t)
    show "ends re_sql_prefix (adv (MState None text None) k) = []" if "k < length pre" for k
      using A [OF that] by (simp add: x0_def)
    show "ends re_sql_prefix (adv (MState None text None) (length pre)) =
            y # concat (map (ends R3) ys)"
      using B E by (simp add: xn_def x0_def)
  qed
  then show ?thesis by (simp add: match1_def re_exec_def y_def)
qed

lemma extract_later:
  "match1 re_sql_prefix text = Some [] \<Longrightarrow> extractSql text = later_matchers text"
proof -
  assume a: "match1 re_sql_prefix text = Some []"
  have "match1 re_sql_prefix [] = None" by code_simp
  then have "text \<noteq> []" using a by auto
  moreover have "trim [] = []" by (simp add: trim_def)
  ultimately show ?thesis
    using a by (simp add: extractSql_def by_prefix_def later_matchers_def Let_def)
qed

lemma lang_str: "lang (str w) = {w}"
proof (induction w)
  case Nil
  then show ?case by (simp add: str_def)
next
  case (Cons c w)
  have step: "str (c # w) = RSeq (chr c) (str w)" by (simp add: str_def)
  show ?case unfolding step lang.simps(3) Cons lang_chr by auto
qed

lemma starts_with_append: "starts_with (w @ v) w"
  by (induction w) auto

lemma starts_with_ci_lang: "map upper u = map upper w \<Longrightarrow> starts_with_ci (u @ v) w"
proof (induction u arbitrary: w)
  case Nil
  then show ?case by simp
next
  case (Cons c u)
  then show ?case by (cases w) auto
qed

lemma str_includes_iff:
  "str_includes s t \<longleftrightarrow> (\<exists>k\<le>length s. starts_with (drop k s) t)"
proof (induction s)
  case Nil
  then show ?case by (cases t) auto
next
  case (Cons c s)
  have "(\<exists>k\<le>length (c # s). starts_with (drop k (c # s)) t) \<longleftrightarrow>
        starts_with (c # s) t \<or> (\<exists>k\<le>length s. starts_with (drop k s) t)"
    (is "?L \<longleftrightarrow> ?R")
  proof
    assume ?L
    then obtain k where k: "k \<le> length (c # s)" "starts_with (drop k (c # s)) t" by blast
    then show ?R by (cases k) auto
  next
    assume ?R
    then show ?L
    proof
      assume "starts_with (c # s) t"
      then have "0 \<le> length (c # s) \<and> starts_with (drop 0 (c # s)) t" by simp
      then show ?L by blast
    next
      assume "\<exists>k\<le>length s. starts_with (drop k s) t"
      then obtain k where "k \<le> length s" "starts_with (drop k s) t" by blast
      then have "Suc k \<le> length (c # s) \<and> starts_with (drop (Suc k) (c # s)) t" by simp
      then show ?L by blast
    qed
  qed
  then show ?case using Cons.IH by simp
qed

text \<open>A search that succeeds has found a word of the language somewhere in the text.\<close>

lemma exec_lang:
  "re_exec r s \<noteq> None \<Longrightarrow> \<exists>k\<le>length s. \<exists>u\<in>lang r. \<exists>v. drop k s = u @ v"
proof -
  assume "re_exec r s \<noteq> None"
  then obtain k where k: "k \<le> length s" "ends r (adv (MState None s None) k) \<noteq> []"
    unfolding re_exec_def search_from_None by blast
  then obtain y where "y \<in> set (ends r (adv (MState None s None) k))"
    by (meson last_in_set)
  then obtain u where "u \<in> lang r" "rest (adv (MState None s None) k) = u @ rest y"
    using ends_sound by blast
  then have "u \<in> lang r \<and> drop k s = u @ rest y" by simp
  then show ?thesis using k(1) by blast
qed

lemma exec_needs_ci:
  "re_exec (RSeq (istr w) r) s \<noteq> None \<Longrightarrow> contains_ci s w"
proof -
  assume "re_exec (RSeq (istr w) r) s \<noteq> None"
  then obtain k u v where k: "k \<le> length s" "u \<in> lang (RSeq (istr w) r)" "drop k s = u @ v"
    using exec_lang by blast
  from k(2) obtain u1 u2 where u: "u = u1 @ u2" "u1 \<in> lang (istr w)" by (rule lang_seqE)
  have "starts_with_ci (drop k s) w"
    using u k(3) starts_with_ci_lang [of u1 w "u2 @ v"] by (simp add: lang_istr)
  then show ?thesis unfolding contains_ci_iff using k(1) by blast
qed

lemma exec_needs_str:
  "re_exec (RSeq (str w) r) s \<noteq> None \<Longrightarrow> str_includes s w"
proof -
  assume "re_exec (RSeq (str w) r) s \<noteq> None"
  then obtain k u v where k: "k \<le> length s" "u \<in> lang (RSeq (str w) r)" "drop k s = u @ v"
    using exec_lang by blast
  from k(2) obtain u1 u2 where u: "u = u1 @ u2" "u1 \<in> lang (str w)" by (rule lang_seqE)
  have "starts_with (drop k s) w"
    using u k(3) starts_with_append [of w "u2 @ v"] by (simp add: lang_str)
  then show ?thesis unfolding str_includes_iff using k(1) by blast
qed

lemma exec_needs_grp_ci:
  "re_exec (RSeq (Grp (RSeq (istr w) r)) r') s \<noteq> None \<Longrightarrow> contains_ci s w"
proof -
  assume "re_exec (RSeq (Grp (RSeq (istr w) r)) r') s \<noteq> None"
  then obtain k u v where k: "k \<le> length s" "u \<in> lang (RSeq (Grp (RSeq (istr w) r)) r')"
    "drop k s = u @ v"
    using exec_lang by blast
  from k(2) obtain a b where a: "u = a @ b" "a \<in> lang (RSeq (istr w) r)"
    by (rule lang_seqE) simp
  from a(2) obtain u1 u2 where u: "a = u1 @ u2" "u1 \<in> lang (istr w)" by (rule lang_seqE)
  have "starts_with_ci (drop k s) w"
    using a u k(3) starts_with_ci_lang [of u1 w "u2 @ b @ v"] by (simp add: lang_istr)
  then show ?thesis unfolding contains_ci_iff using k(1) by blast
qed

lemma exec_needs_grp_ci':
  "re_exec (Grp (RSeq (istr w) r)) s \<noteq> None \<Longrightarrow> contains_ci s w"
proof -
  assume "re_exec (Grp (RSeq (istr w) r)) s \<noteq> None"
  then obtain k u v where k: "k \<le> length s" "u \<in> lang (Grp (RSeq (istr w) r))"
    "drop k s = u @ v"
    using exec_lang by blast
  from k(2) have "u \<in> lang (RSeq (istr w) r)" by simp
  then obtain u1 u2 where u: "u = u1 @ u2" "u1 \<in> lang (istr w)" by (rule lang_seqE)
  have "starts_with_ci (drop k s) w"
    using u k(3) starts_with_ci_lang [of u1 w "u2 @ v"] by (simp add: lang_istr)
  then show ?thesis unfolding contains_ci_iff using k(1) by blast
qed

lemma match1_None: "re_exec r s = None \<Longrightarrow> match1 r s = None"
  by (simp add: match1_def)

lemma nothing_to_extract:
  "\<not> contains_ci text ''SQL:'' \<Longrightarrow> \<not> str_includes text fence \<Longrightarrow> \<not> contains_ci text ''SELECT'' \<Longrightarrow>
   by_prefix text = None \<and> by_code_block text = None \<and> by_select_span text = None
   \<and> by_any_select text = None"
proof -
  assume a: "\<not> contains_ci text ''SQL:''" "\<not> str_includes text fence"
    "\<not> contains_ci text ''SELECT''"
  have 1: "match1 re_sql_prefix text = None"
    using a(1) exec_needs_ci unfolding re_sql_prefix_def by (blast intro: match1_None)
  have 2: "match1 re_code_sql text = None"
    using a(2) exec_needs_str unfolding re_code_sql_def by (blast intro: match1_None)
  have 3: "match1 re_code_plain text = None"
    using a(2) exec_needs_str unfolding re_code_plain_def by (blast intro: match1_None)
  have 4: "match1 re_select_span text = None"
    using a(3) exec_needs_grp_ci unfolding re_select_span_def by (blast intro: match1_None)
  have 5: "match1 re_select_rest text = None"
    using a(3) exec_needs_grp_ci' unfolding re_select_rest_def by (blast intro: match1_None)
  show ?thesis
    by (simp add: by_prefix_def by_code_block_def by_select_span_def by_any_select_def 1 2 3 4 5)
qed

text \<open>
  C9, as the specification states it: a text with a line that begins with \<^verbatim>\<open>SQL:\<close> and
  with a fenced code block gives the content of that line. Three texts with both show
  otherwise. The marker is followed by the block on the next line: the result runs on to
  the first empty line and has the block in it. The line of the marker is empty: the
  first matcher gives nothing and the content of the block is returned. And a marker in
  the middle of an earlier line (the expression is not anchored to a line) wins over the
  line that begins with the marker.
\<close>

theorem extraction_counterexample:
  "sql_lines answer_marker_block = [''SELECT 1''] \<and> has_code_block answer_marker_block
   \<and> extractSql answer_marker_block =
       Some (''SELECT 1'' @ [NL] @ fence @ ''sql'' @ [NL] @ ''SELECT 2'' @ [NL] @ fence)
   \<and> sql_lines answer_empty_marker = [[]] \<and> has_code_block answer_empty_marker
   \<and> extractSql answer_empty_marker = Some ''SELECT b FROM t''
   \<and> sql_lines answer_marker_inside = [''SELECT a FROM t''] \<and> has_code_block answer_marker_inside
   \<and> extractSql answer_marker_inside = Some ''fast''"
  by code_simp

text \<open>
  C9, amended. Let the first \<^verbatim>\<open>SQL:\<close> of the text, in any case, begin a line, and let
  it be followed, after white space, by a body that ends at the first empty line or at
  the end of the text. Then \<^verbatim>\<open>extractSql\<close> returns that body, trimmed, whether the text
  has a fenced code block or not. When instead nothing but white space follows that
  marker, the result is what the later matchers give: the code block, then the two
  \<^verbatim>\<open>SELECT\<close> patterns. And when none of the four matchers gives a statement the
  result is null; so it is for every text with no \<^verbatim>\<open>SQL:\<close>, no fence and no
  \<^verbatim>\<open>SELECT\<close> in it.
\<close>

theorem marker_wins:
  "(text = pre @ m @ ws @ body @ tail
      \<and> length m = 4 \<and> starts_with_ci m ''SQL:'' \<and> (pre = [] \<or> last pre = NL)
      \<and> list_all (\<lambda>k. \<not> starts_with_ci (drop k text) ''SQL:'') [0..<length pre]
      \<and> list_all is_space ws \<and> body \<noteq> [] \<and> \<not> is_space (hd body)
      \<and> list_all (\<lambda>j. \<not> starts_with (drop j (body @ tail)) [NL, NL]) [0..<length body]
      \<and> (tail = [] \<or> starts_with tail [NL, NL])
    \<longrightarrow> extractSql text = Some (trim body))
   \<and> (text = pre @ m @ ws
      \<and> length m = 4 \<and> starts_with_ci m ''SQL:'' \<and> (pre = [] \<or> last pre = NL)
      \<and> list_all (\<lambda>k. \<not> starts_with_ci (drop k text) ''SQL:'') [0..<length pre]
      \<and> list_all is_space ws
    \<longrightarrow> extractSql text = later_matchers text)
   \<and> (by_prefix text = None \<and> by_code_block text = None \<and> by_select_span text = None
        \<and> by_any_select text = None
    \<longrightarrow> extractSql text = None)
   \<and> (\<not> contains_ci text ''SQL:'' \<and> \<not> str_includes text fence \<and> \<not> contains_ci text ''SELECT''
    \<longrightarrow> extractSql text = None)"
proof -
  have L: "extractSql text = later_matchers text"
    if "text = pre @ m @ ws" "length m = 4" "starts_with_ci m ''SQL:''"
      "list_all (\<lambda>k. \<not> starts_with_ci (drop k text) ''SQL:'') [0..<length pre]"
      "list_all is_space ws"
    using extract_later [OF sql_prefix_blank [OF that]] .
  have A: "extractSql text = Some (trim body)"
    if "text = pre @ m @ ws @ body @ tail" "length m = 4" "starts_with_ci m ''SQL:''"
      "list_all (\<lambda>k. \<not> starts_with_ci (drop k text) ''SQL:'') [0..<length pre]"
      "list_all is_space ws" "body \<noteq> []" "\<not> is_space (hd body)"
      "list_all (\<lambda>j. \<not> starts_with (drop j (body @ tail)) [NL, NL]) [0..<length body]"
      "tail = [] \<or> starts_with tail [NL, NL]"
    using extract_by_prefix [OF sql_prefix_capture [OF that] trim_keeps [OF that(6,7)]] .
  have B: "extractSql text = None"
    if "by_prefix text = None" "by_code_block text = None" "by_select_span text = None"
      "by_any_select text = None"
    using that by (simp add: extractSql_def)
  have C: "extractSql text = None"
    if "\<not> contains_ci text ''SQL:''" "\<not> str_includes text fence" "\<not> contains_ci text ''SELECT''"
    using nothing_to_extract [OF that] B by blast
  show ?thesis using A B C L by blast
qed

theorem marker_wins_witness:
  "answer_marker_first =
     (''Here you go'' @ [NL, NL]) @ ''SQL:'' @ '' '' @ (''SELECT a FROM t'' @ [NL] @ ''WHERE x = 1'')
       @ ([NL, NL] @ code_block)
   \<and> has_code_block answer_marker_first
   \<and> extractSql answer_marker_first = Some (''SELECT a FROM t'' @ [NL] @ ''WHERE x = 1'')
   \<and> answer_blank_marker = (code_block @ [NL]) @ ''sql:'' @ ('' '' @ [NL])
   \<and> has_code_block answer_blank_marker
   \<and> later_matchers answer_blank_marker = Some ''SELECT b FROM t''
   \<and> extractSql answer_blank_marker = Some ''SELECT b FROM t''
   \<and> \<not> contains_ci ''nothing here'' ''SQL:'' \<and> \<not> str_includes ''nothing here'' fence
   \<and> \<not> contains_ci ''nothing here'' ''SELECT''
   \<and> extractSql ''nothing here'' = None"
proof -
  let ?bpre = "code_block @ [NL]"
  let ?bws = "'' '' @ [NL]"
  have bt: "answer_blank_marker = ?bpre @ ''sql:'' @ ?bws" by (simp add: answer_blank_marker_def)
  have bb: "has_code_block answer_blank_marker" by code_simp
  have b1: "length ''sql:'' = 4 \<and> starts_with_ci ''sql:'' ''SQL:'' \<and> (?bpre = [] \<or> last ?bpre = NL)"
    by code_simp
  have b2: "list_all (\<lambda>k. \<not> starts_with_ci (drop k answer_blank_marker) ''SQL:'') [0..<length ?bpre]"
    by code_simp
  have b3: "list_all is_space ?bws" by code_simp
  have bl: "later_matchers answer_blank_marker = Some ''SELECT b FROM t''" by code_simp
  have "extractSql answer_blank_marker = later_matchers answer_blank_marker"
    using marker_wins [of answer_blank_marker ?bpre "''sql:''" ?bws "[]" "[]"] bt b1 b2 b3
    by blast
  then have 3: "extractSql answer_blank_marker = Some ''SELECT b FROM t''" using bl by simp
  let ?pre = "''Here you go'' @ [NL, NL]"
  let ?body = "''SELECT a FROM t'' @ [NL] @ ''WHERE x = 1''"
  let ?tail = "[NL, NL] @ code_block"
  have t: "answer_marker_first = ?pre @ ''SQL:'' @ '' '' @ ?body @ ?tail"
    by (simp add: answer_marker_first_def)
  have hb: "has_code_block answer_marker_first" by code_simp
  have h1: "length ''SQL:'' = 4 \<and> starts_with_ci ''SQL:'' ''SQL:'' \<and> (?pre = [] \<or> last ?pre = NL)"
    by code_simp
  have h2: "list_all (\<lambda>k. \<not> starts_with_ci (drop k answer_marker_first) ''SQL:'') [0..<length ?pre]"
    by code_simp
  have h3: "list_all is_space '' '' \<and> ?body \<noteq> [] \<and> \<not> is_space (hd ?body)" by code_simp
  have h4: "list_all (\<lambda>j. \<not> starts_with (drop j (?body @ ?tail)) [NL, NL]) [0..<length ?body]"
    by code_simp
  have h5: "?tail = [] \<or> starts_with ?tail [NL, NL]" by code_simp
  have tb: "trim ?body = ?body" by code_simp
  have n: "\<not> contains_ci ''nothing here'' ''SQL:'' \<and> \<not> str_includes ''nothing here'' fence
            \<and> \<not> contains_ci ''nothing here'' ''SELECT''" by code_simp
  have 1: "extractSql answer_marker_first = Some (trim ?body)"
    using marker_wins [of answer_marker_first ?pre "''SQL:''" "'' ''" ?body ?tail] t h1 h2 h3 h4 h5
    by blast
  have 2: "extractSql ''nothing here'' = None"
    using marker_wins [of "''nothing here''"] n by blast
  show ?thesis using t hb 1 2 n bt bb bl 3 unfolding tb by blast
qed

section \<open>The \<^verbatim>\<open>LIMIT\<close> clause of a statement\<close>

lemma upper_is_word: "upper c \<in> set upper_chars \<Longrightarrow> is_word c"
proof (cases "map_of (zip lower_chars upper_chars) c")
  case None
  assume "upper c \<in> set upper_chars"
  then show ?thesis using None by (simp add: upper_def is_word_def)
next
  case (Some u)
  then have "c \<in> set lower_chars" by (meson map_of_SomeD set_zip_leftD)
  then show ?thesis by (simp add: is_word_def)
qed

lemma upper_word_first:
  "map upper l = w \<Longrightarrow> w \<noteq> [] \<Longrightarrow> hd w \<in> set upper_chars \<Longrightarrow> l \<noteq> [] \<and> is_word (hd l)"
  by (cases l) (auto intro: upper_is_word)

lemma prev_adv:
  "k \<le> length s \<Longrightarrow>
   word_at (prev (adv (MState None s None) k)) \<longleftrightarrow> (take k s \<noteq> [] \<and> is_word (last (take k s)))"
proof (cases k)
  case 0
  then show ?thesis by (simp add: word_at_def)
next
  case (Suc j)
  assume "k \<le> length s"
  then have "j < length s" using Suc by simp
  then have "last (take (Suc j) s) = s ! j" by (simp add: take_Suc_conv_app_nth)
  moreover have "take (Suc j) s \<noteq> []" using \<open>j < length s\<close> by auto
  ultimately show ?thesis using Suc by (simp add: adv_def word_at_def)
qed

lemma plain_has: "plain r \<Longrightarrow> ends r x \<noteq> [] \<longleftrightarrow> (\<exists>u\<in>lang r. \<exists>v. rest x = u @ v)"
proof
  assume "ends r x \<noteq> []"
  then obtain y where "y \<in> set (ends r x)" by (meson last_in_set)
  then show "\<exists>u\<in>lang r. \<exists>v. rest x = u @ v" using ends_sound by blast
next
  assume "plain r" "\<exists>u\<in>lang r. \<exists>v. rest x = u @ v"
  then obtain y where "y \<in> set (ends r x)" using ends_complete by blast
  then show "ends r x \<noteq> []" by auto
qed

lemma upper_LIMIT: "map upper ''limit'' = ''LIMIT''"
  by (simp add: upper_def lower_chars_def upper_chars_def)

lemma limit_sound: "hasLimit s \<Longrightarrow> has_limit_clause s"
proof -
  define R where "R = RSeq (istr ''limit'') (RSeq (RPlus (Cls is_space)) (RPlus (Cls is_digit)))"
  have re: "re_limit = RSeq WordB R" by (simp add: re_limit_def R_def)
  assume "hasLimit s"
  then obtain k where k: "k \<le> length s" "ends re_limit (adv (MState None s None) k) \<noteq> []"
    unfolding hasLimit_def re_test_def re_exec_def search_from_None by blast
  define x where "x = adv (MState None s None) k"
  have b: "word_at (prev x) \<noteq> word_at (next_char (rest x))" and e: "ends R x \<noteq> []"
    using k(2) by (auto simp: re x_def split: if_splits)
  obtain y where "y \<in> set (ends R x)" using e by (meson last_in_set)
  then obtain u where u: "u \<in> lang R" "rest x = u @ rest y" using ends_sound by blast
  from u(1) obtain l r1 where 1: "u = l @ r1" "l \<in> lang (istr ''limit'')"
    and m1: "r1 \<in> lang (RSeq (RPlus (Cls is_space)) (RPlus (Cls is_digit)))"
    unfolding R_def by (rule lang_seqE)
  from m1 obtain ws ds where 2: "r1 = ws @ ds" "ws \<in> lang (RPlus (Cls is_space))"
    "ds \<in> lang (RPlus (Cls is_digit))"
    by (rule lang_seqE)
  have l: "map upper l = ''LIMIT''" using 1(2) unfolding lang_istr upper_LIMIT by simp
  have lw: "l \<noteq> [] \<and> is_word (hd l)"
    using l by (rule upper_word_first) (simp_all add: upper_chars_def)
  have d: "drop k s = l @ ws @ ds @ rest y" using u(2) 1(1) 2(1) by (simp add: x_def)
  then have "word_at (next_char (rest x))"
    using lw by (cases l) (auto simp: x_def next_char_def word_at_def)
  then have "\<not> word_at (prev x)" using b by simp
  then have p: "take k s = [] \<or> \<not> is_word (last (take k s))"
    using prev_adv [OF k(1)] by (auto simp: x_def)
  have "s = take k s @ l @ ws @ ds @ rest y" using d by (metis append_take_drop_id)
  moreover have "ws \<noteq> [] \<and> list_all is_space ws" using 2(2) by (simp add: lang_plus_Cls)
  moreover have "ds \<noteq> [] \<and> list_all is_digit ds" using 2(3) by (simp add: lang_plus_Cls)
  ultimately have "s = take k s @ l @ ws @ ds @ rest y
        \<and> (take k s = [] \<or> \<not> is_word (last (take k s))) \<and> map upper l = ''LIMIT''
        \<and> ws \<noteq> [] \<and> list_all is_space ws \<and> ds \<noteq> [] \<and> list_all is_digit ds"
    using p l by blast
  then show ?thesis unfolding has_limit_clause_def
    by (intro exI [of _ "take k s"] exI [of _ l] exI [of _ ws] exI [of _ ds] exI [of _ "rest y"])
qed

lemma limit_complete: "has_limit_clause s \<Longrightarrow> hasLimit s"
proof -
  define R where "R = RSeq (istr ''limit'') (RSeq (RPlus (Cls is_space)) (RPlus (Cls is_digit)))"
  have re: "re_limit = RSeq WordB R" by (simp add: re_limit_def R_def)
  have pl: "plain R" by (simp add: R_def plain_istr RPlus_def)
  assume "has_limit_clause s"
  then obtain pre l ws ds post where s: "s = pre @ l @ ws @ ds @ post"
    and c: "pre = [] \<or> \<not> is_word (last pre)" "map upper l = ''LIMIT''"
      "ws \<noteq> []" "list_all is_space ws" "ds \<noteq> []" "list_all is_digit ds"
    unfolding has_limit_clause_def by (elim exE conjE) (rule that)
  define k where "k = length pre"
  define x where "x = adv (MState None s None) k"
  have kl: "k \<le> length s" by (simp add: k_def s)
  have tk: "take k s = pre" by (simp add: k_def s)
  have rx: "rest x = l @ ws @ ds @ post" by (simp add: x_def k_def s)
  have lw: "l \<noteq> [] \<and> is_word (hd l)"
    using c(2) by (rule upper_word_first) (simp_all add: upper_chars_def)
  have "word_at (next_char (rest x))"
    using lw by (cases l) (auto simp: rx next_char_def word_at_def)
  moreover have "\<not> word_at (prev x)"
    using prev_adv [OF kl] c(1) by (auto simp: x_def tk)
  ultimately have b: "word_at (prev x) \<noteq> word_at (next_char (rest x))" by simp
  have 1: "l \<in> lang (istr ''limit'')" using c(2) unfolding lang_istr upper_LIMIT by simp
  have 2: "ws \<in> lang (RPlus (Cls is_space))" using c(3,4) by (simp add: lang_plus_Cls)
  have 3: "ds \<in> lang (RPlus (Cls is_digit))" using c(5,6) by (simp add: lang_plus_Cls)
  have "l @ ws @ ds \<in> lang R" unfolding R_def by (intro lang_seqI 1 2 3)
  then have "\<exists>u\<in>lang R. \<exists>v. rest x = u @ v" using rx by (metis append.assoc)
  then have "ends R x \<noteq> []" using plain_has [OF pl] by blast
  then have "ends re_limit (adv (MState None s None) k) \<noteq> []"
    using b by (simp add: re x_def)
  then show ?thesis
    unfolding hasLimit_def re_test_def re_exec_def search_from_None using kl by blast
qed

lemma hasLimit_iff: "hasLimit s \<longleftrightarrow> has_limit_clause s"
  using limit_sound limit_complete by blast

lemma has_limit_clause_code [code]: "has_limit_clause s \<longleftrightarrow> hasLimit s"
  by (simp add: hasLimit_iff)

section \<open>The row limit and the \<^verbatim>\<open>WHERE\<close> clause\<close>

text \<open>
  C3. For every accepted statement (the text from the first \<^verbatim>\<open>SELECT\<close> of the cleaned
  input, when no check rejects it), the statement passed to the engine is that statement
  itself when it has a \<^verbatim>\<open>LIMIT\<close> clause (the keyword in any case at the start of a word,
  white space, a digit), whatever the number, and otherwise that statement followed by
  \<^verbatim>\<open>LIMIT n\<close> with \<open>n\<close> the requested limit clamped to 1 and 1000, the requested limit
  being 200 when none is given.
\<close>

theorem limit_injection:
  "data_dir w \<noteq> None \<Longrightarrow> accepted sql \<Longrightarrow>
   snd (executeSqlite w sql limit) =
     [if has_limit_clause (from_select (clean sql)) then from_select (clean sql)
      else from_select (clean sql) @ '' LIMIT ''
             @ show_int (clamp (case limit of None \<Rightarrow> 200 | Some n \<Rightarrow> n) 1 1000)]"
proof -
  assume a: "data_dir w \<noteq> None" "accepted sql"
  have "snd (executeSqlite w sql limit) =
          [limited (from_select (clean sql)) (case limit of None \<Rightarrow> 200 | Some n \<Rightarrow> n)]"
    using a(1) sanitize_accepted [OF a(2)] by (rule execute_forward)
  then show ?thesis by (simp add: limited_def clamp_max_min hasLimit_iff)
qed

theorem limit_injection_witness:
  "data_dir empty_engine \<noteq> None
   \<and> accepted ''SELECT * FROM t''
   \<and> \<not> has_limit_clause ''SELECT * FROM t''
   \<and> snd (executeSqlite empty_engine ''SELECT * FROM t'' None) = [''SELECT * FROM t LIMIT 200'']
   \<and> snd (executeSqlite empty_engine ''SELECT * FROM t'' (Some 5000)) = [''SELECT * FROM t LIMIT 1000'']
   \<and> snd (executeSqlite empty_engine ''SELECT * FROM t'' (Some (- 3))) = [''SELECT * FROM t LIMIT 1'']
   \<and> accepted ''select * from t limit 1000000''
   \<and> has_limit_clause ''select * from t limit 1000000''
   \<and> snd (executeSqlite empty_engine ''select * from t limit 1000000'' (Some 10)) =
       [''select * from t limit 1000000'']"
proof -
  have h1: "data_dir empty_engine \<noteq> None" by (simp add: empty_engine_def)
  have a1: "accepted ''SELECT * FROM t''" by code_simp
  have a2: "accepted ''select * from t limit 1000000''" by code_simp
  have f1: "from_select (clean ''SELECT * FROM t'') = ''SELECT * FROM t''" by code_simp
  have f2: "from_select (clean ''select * from t limit 1000000'') = ''select * from t limit 1000000''"
    by code_simp
  have l1: "\<not> has_limit_clause ''SELECT * FROM t''" by code_simp
  have l2: "has_limit_clause ''select * from t limit 1000000''" by code_simp
  have s1: "show_int 200 = ''200''" by code_simp
  have s2: "show_int 1000 = ''1000''" by code_simp
  have s3: "show_int 1 = ''1''" by code_simp
  show ?thesis
    using limit_injection [OF h1 a1, of None] limit_injection [OF h1 a1, of "Some 5000"]
      limit_injection [OF h1 a1, of "Some (- 3)"] limit_injection [OF h1 a2, of "Some 10"]
      h1 a1 a2 f1 f2 l1 l2 s1 s2 s3
    by (simp add: clamp_def)
qed

text \<open>
  C6. The body of the \<^verbatim>\<open>WHERE\<close> clause runs up to \<^verbatim>\<open>GROUP BY\<close>, \<^verbatim>\<open>ORDER BY\<close>,
  \<^verbatim>\<open>LIMIT\<close> or the end of the statement; a statement whose body, trimmed, is a single
  identifier optionally followed by a bare \<^verbatim>\<open>AND\<close> or \<^verbatim>\<open>OR\<close> is rejected, and one with
  a comparison and a value is accepted. The expression of the source ends the body at
  \<^verbatim>\<open>\bLIMIT\<close>, with nothing asked of what stands behind the word (the test for a
  \<^verbatim>\<open>LIMIT\<close> clause in the same function asks for white space and a digit there), so a
  name that begins with \<^verbatim>\<open>limit\<close> ends the body. The clause of
  \<^verbatim>\<open>SELECT * FROM t WHERE is_active AND limit_qty > 5\<close> has a comparison and a value and
  is no single identifier, and the statement is rejected with \<^verbatim>\<open>is_active AND\<close> quoted;
  the clause of \<^verbatim>\<open>SELECT * FROM t WHERE limit_x\<close> is a single identifier, and the statement
  is passed to the engine.
\<close>

theorem where_keyword_prefix:
  "where_clause ''SELECT * FROM t WHERE is_active AND limit_qty > 5''
     ''SELECT * FROM t '' ''WHERE'' '' '' ''is_active AND limit_qty > 5'' []
   \<and> CHR ''>'' \<in> set ''is_active AND limit_qty > 5''
   \<and> \<not> single_identifier (trim ''is_active AND limit_qty > 5'')
   \<and> whereMatch ''SELECT * FROM t WHERE is_active AND limit_qty > 5'' = Some (Some ''is_active AND '')
   \<and> executeSqlite empty_engine ''SELECT * FROM t WHERE is_active AND limit_qty > 5'' None =
       (Failure ''SQL query appears incomplete. The WHERE clause is missing a condition. Found: WHERE is_active AND'', [])
   \<and> where_clause ''SELECT * FROM t WHERE limit_x'' ''SELECT * FROM t '' ''WHERE'' '' '' ''limit_x'' []
   \<and> single_identifier (trim ''limit_x'')
   \<and> whereMatch ''SELECT * FROM t WHERE limit_x'' = Some (Some [])
   \<and> executeSqlite empty_engine ''SELECT * FROM t WHERE limit_x'' None =
       (Success [] [], [''SELECT * FROM t WHERE limit_x LIMIT 200''])"
proof -
  have w1: "where_clause ''SELECT * FROM t WHERE is_active AND limit_qty > 5''
     ''SELECT * FROM t '' ''WHERE'' '' '' ''is_active AND limit_qty > 5'' []" by code_simp
  have c1: "CHR ''>'' \<in> set ''is_active AND limit_qty > 5''" by code_simp
  have "\<not> re_test incompletePattern (trim ''is_active AND limit_qty > 5'')" by code_simp
  then have n1: "\<not> single_identifier (trim ''is_active AND limit_qty > 5'')"
    using incomplete_iff by blast
  have m1: "whereMatch ''SELECT * FROM t WHERE is_active AND limit_qty > 5'' = Some (Some ''is_active AND '')"
    by code_simp
  have e1: "executeSqlite empty_engine ''SELECT * FROM t WHERE is_active AND limit_qty > 5'' None =
       (Failure ''SQL query appears incomplete. The WHERE clause is missing a condition. Found: WHERE is_active AND'', [])"
    by code_simp
  have w2: "where_clause ''SELECT * FROM t WHERE limit_x'' ''SELECT * FROM t '' ''WHERE'' '' ''
              ''limit_x'' []" by code_simp
  have "re_test incompletePattern (trim ''limit_x'')" by code_simp
  then have s2: "single_identifier (trim ''limit_x'')" using incomplete_iff by blast
  have m2: "whereMatch ''SELECT * FROM t WHERE limit_x'' = Some (Some [])" by code_simp
  have e2: "executeSqlite empty_engine ''SELECT * FROM t WHERE limit_x'' None =
       (Success [] [], [''SELECT * FROM t WHERE limit_x LIMIT 200''])" by code_simp
  show ?thesis using w1 c1 n1 m1 e1 w2 s2 m2 e2 by blast
qed

end
